theory Spec2Isabelle
  imports Main "HOL-Library.Word"
begin

unbundle bit_operations_syntax

section \<open>Pointers, constants and results\<close>

text \<open>
  The embedding follows \<^verbatim>\<open>concurrentHashTable.inline.hpp\<close> function by function, as
  one thread executes it (a sequential run: no other thread changes the memory between two
  steps). Pointers are 64-bit words (the \<^verbatim>\<open>_LP64\<close> branch of the file), \<^verbatim>\<open>NULL\<close> is 0.
  A call that never returns has the value \<open>None\<close>; a call stopped by \<^verbatim>\<open>assert\<close> (in a
  build where \<^verbatim>\<open>ASSERT\<close> is defined) or by \<^verbatim>\<open>fatal\<close> returns \<open>Some (Inl e)\<close>.
\<close>

type_synonym ptr = "64 word"
type_synonym thread = "64 word"

abbreviation NULL :: ptr where
  "NULL \<equiv> 0"

definition SIZE_BIG_LOG2 :: nat where
  "SIZE_BIG_LOG2 = 30"

definition SIZE_SMALL_LOG2 :: nat where
  "SIZE_SMALL_LOG2 = 5"

definition SPINPAUSES_PER_YIELD :: nat where
  "SPINPAUSES_PER_YIELD = 8192"

definition POISON_PTR :: ptr where
  "POISON_PTR = 0xfbadbadbadbadbac"

datatype error = Assert_failed string | Fatal string

definition assert_that :: "bool \<Rightarrow> bool \<Rightarrow> string \<Rightarrow> error + unit" where
  "assert_that dbg c msg = (if dbg \<and> \<not> c then Inl (Assert_failed msg) else Inr ())"

definition bindE :: "error + 'a \<Rightarrow> ('a \<Rightarrow> error + 'b) \<Rightarrow> error + 'b" where
  "bindE m f = (case m of Inl e \<Rightarrow> Inl e | Inr x \<Rightarrow> f x)"

definition bindR ::
  "(error + 'a) option \<Rightarrow> ('a \<Rightarrow> (error + 'b) option) \<Rightarrow> (error + 'b) option" where
  "bindR m f = Option.bind m (\<lambda>r. case r of Inl e \<Rightarrow> Some (Inl e) | Inr x \<Rightarrow> f x)"

lemma bindR_mono [partial_function_mono]:
  assumes mf: "mono_option B" and mg: "\<And>y. mono_option (\<lambda>f. C y f)"
  shows "mono_option (\<lambda>f. bindR (B f) (\<lambda>y. C y f))"
  unfolding bindR_def
proof (intro partial_function_mono mf)
  fix y
  show "mono_option (\<lambda>f. case y of Inl e \<Rightarrow> Some (Inl e) | Inr x \<Rightarrow> C x f)"
    by (cases y) (simp_all add: mg option.const_mono)
qed

lemma bindR_simps [simp]:
  "bindR None f = None"
  "bindR (Some (Inl e)) f = Some (Inl e)"
  "bindR (Some (Inr x)) f = f x"
  by (simp_all add: bindR_def)

lemma bindE_simps [simp]:
  "bindE (Inl e) f = Inl e"
  "bindE (Inr x) f = f x"
  by (simp_all add: bindE_def)

lemma assert_that_simps [simp]:
  "assert_that dbg True msg = Inr ()"
  "assert_that False c msg = Inr ()"
  "assert_that True False msg = Inl (Assert_failed msg)"
  by (simp_all add: assert_that_def)

section \<open>The state bits of a bucket head\<close>

text \<open>
  Modelled from the spec: the constants \<^verbatim>\<open>STATE_LOCK_BIT\<close>, \<^verbatim>\<open>STATE_REDIRECT_BIT\<close>,
  \<^verbatim>\<open>STATE_MASK\<close> and the helpers \<^verbatim>\<open>is_state\<close>, \<^verbatim>\<open>set_state\<close>, \<^verbatim>\<open>get_state\<close>,
  \<^verbatim>\<open>clear_state\<close>, \<^verbatim>\<open>clear_set_state\<close> are declared in \<^verbatim>\<open>concurrentHashTable.hpp\<close>,
  which is not among the sources. The spec: the two low bits of the head pointer are LOCK and
  REDIRECT, the pointer portion is word-aligned, \<^verbatim>\<open>first()\<close> strips the flags, and
  \<^verbatim>\<open>release_assign_node_ptr\<close> preserves the flag bits of the slot it writes.
\<close>

definition STATE_LOCK_BIT :: ptr where
  "STATE_LOCK_BIT = 1"

definition STATE_REDIRECT_BIT :: ptr where
  "STATE_REDIRECT_BIT = 2"

definition STATE_MASK :: ptr where
  "STATE_MASK = 3"

definition is_state :: "ptr \<Rightarrow> ptr \<Rightarrow> bool" where
  "is_state node bits = (bits AND node = bits)"

definition set_state :: "ptr \<Rightarrow> ptr \<Rightarrow> ptr" where
  "set_state n bits = bits OR n"

definition get_state :: "ptr \<Rightarrow> ptr" where
  "get_state node = node AND STATE_MASK"

definition clear_state :: "ptr \<Rightarrow> ptr" where
  "clear_state node = node AND NOT STATE_MASK"

definition clear_set_state :: "ptr \<Rightarrow> ptr \<Rightarrow> ptr" where
  "clear_set_state node state = clear_state node XOR get_state state"

section \<open>Bucket: the operations on the head word\<close>

text \<open>
  Each operation of \<^verbatim>\<open>Bucket\<close> is first given on the word \<^verbatim>\<open>_first\<close> alone.
  \<^verbatim>\<open>Atomic::cmpxchg(new, &_first, old) == old\<close> by the only running thread succeeds
  exactly when \<^verbatim>\<open>_first\<close> holds \<^verbatim>\<open>old\<close>. The first argument \<open>dbg\<close> says whether
  \<^verbatim>\<open>ASSERT\<close> is defined.
\<close>

definition Bucket_first :: "ptr \<Rightarrow> ptr" where
  "Bucket_first f = clear_state f"

definition Bucket_have_redirect :: "ptr \<Rightarrow> bool" where
  "Bucket_have_redirect f = is_state f STATE_REDIRECT_BIT"

definition Bucket_is_locked :: "ptr \<Rightarrow> bool" where
  "Bucket_is_locked f = is_state f STATE_LOCK_BIT"

definition Bucket_trylock :: "ptr \<Rightarrow> bool \<times> ptr" where
  "Bucket_trylock f =
     (if Bucket_is_locked f then (False, f)
      else let tmp = Bucket_first f in
        if f = tmp then (True, set_state tmp STATE_LOCK_BIT) else (False, f))"

partial_function (option) Bucket_lock :: "ptr \<Rightarrow> nat \<Rightarrow> ptr option" where
  "Bucket_lock f i =
     (case Bucket_trylock f of (ok, f') \<Rightarrow>
        if ok then Some f'
        else Bucket_lock f' (if Suc i = SPINPAUSES_PER_YIELD then 0 else Suc i))"

definition Bucket_cas_first :: "ptr \<Rightarrow> ptr \<Rightarrow> ptr \<Rightarrow> bool \<times> ptr" where
  "Bucket_cas_first f node expect =
     (if Bucket_is_locked f then (False, f)
      else if f = expect then (True, node) else (False, f))"

definition Bucket_unlock :: "bool \<Rightarrow> ptr \<Rightarrow> error + ptr" where
  "Bucket_unlock dbg f =
     bindE (assert_that dbg (Bucket_is_locked f) ''Must be locked.'') (\<lambda>_.
     bindE (assert_that dbg (\<not> Bucket_have_redirect f)
              ''Unlocking a bucket after it has reached terminal state.'') (\<lambda>_.
     Inr (clear_state (Bucket_first f))))"

definition Bucket_redirect :: "bool \<Rightarrow> ptr \<Rightarrow> error + ptr" where
  "Bucket_redirect dbg f =
     bindE (assert_that dbg (Bucket_is_locked f) ''Must be locked.'') (\<lambda>_.
     Inr (set_state f STATE_REDIRECT_BIT))"

text \<open>\<^verbatim>\<open>release_assign_node_ptr(first_ptr(), node)\<close>: the store into the bucket's own head.\<close>

definition Bucket_release_assign_first :: "bool \<Rightarrow> ptr \<Rightarrow> ptr \<Rightarrow> error + ptr" where
  "Bucket_release_assign_first dbg f node =
     bindE (assert_that dbg (Bucket_is_locked f) ''Must be locked.'') (\<lambda>_.
     Inr (clear_set_state node f))"

datatype bucket_op =
    Op_trylock
  | Op_lock
  | Op_unlock
  | Op_redirect
  | Op_cas_first ptr ptr
  | Op_release_assign_first ptr

fun bucket_op_step :: "bool \<Rightarrow> bucket_op \<Rightarrow> ptr \<Rightarrow> (error + ptr) option" where
  "bucket_op_step dbg Op_trylock f = Some (Inr (snd (Bucket_trylock f)))"
| "bucket_op_step dbg Op_lock f = map_option Inr (Bucket_lock f 0)"
| "bucket_op_step dbg Op_unlock f = Some (Bucket_unlock dbg f)"
| "bucket_op_step dbg Op_redirect f = Some (Bucket_redirect dbg f)"
| "bucket_op_step dbg (Op_cas_first node expect) f = Some (Inr (snd (Bucket_cas_first f node expect)))"
| "bucket_op_step dbg (Op_release_assign_first node) f = Some (Bucket_release_assign_first dbg f node)"

fun run_bucket_ops :: "bool \<Rightarrow> bucket_op list \<Rightarrow> ptr \<Rightarrow> (error + ptr) option" where
  "run_bucket_ops dbg [] f = Some (Inr f)"
| "run_bucket_ops dbg (x # xs) f = bindR (bucket_op_step dbg x f) (run_bucket_ops dbg xs)"

text \<open>A \<^verbatim>\<open>Node*\<close> handed to \<^verbatim>\<open>cas_first\<close> is the address of a node: its two low bits are 0.\<close>

fun node_arg_aligned :: "bucket_op \<Rightarrow> bool" where
  "node_arg_aligned (Op_cas_first node expect) = (get_state node = 0)"
| "node_arg_aligned _ = True"

section \<open>Memory: tables, nodes and the log of external calls\<close>

text \<open>
  An \<^verbatim>\<open>InternalTable\<close> is an object in a store of tables, addressed by its pointer; a
  \<^verbatim>\<open>Bucket*\<close> is the table's address and an index; a \<^verbatim>\<open>Node\<close> is addressed by its pointer,
  with the fields \<^verbatim>\<open>_next\<close> and \<^verbatim>\<open>_value\<close>. A \<^verbatim>\<open>Node* const volatile *\<close> is a slot: the
  head of a bucket or the \<^verbatim>\<open>_next\<close> field of a node. Reading \<open>buckets ! i\<close> beyond the array
  is unspecified here as it is undefined in C++; the theorems below only index inside it.
  The calls that leave the file (\<^verbatim>\<open>GlobalCounter\<close>, the deleter callback,
  \<^verbatim>\<open>Node::destroy_node\<close>, \<^verbatim>\<open>delete\<close> of a table), the release stores of
  \<^verbatim>\<open>release_assign_node_ptr\<close> and the release stores into \<^verbatim>\<open>_invisible_epoch\<close>
  (\<^verbatim>\<open>release_store\<close> in \<^verbatim>\<open>write_synchonize_on_visible_epoch\<close>, \<^verbatim>\<open>release_store_fence\<close> in
  the constructor of \<^verbatim>\<open>ScopedCS\<close>, with the value stored) are appended to a log, in the
  order they happen.
\<close>

record internal_table =
  log2_size :: nat
  tsize :: nat
  hash_mask :: "64 word"
  buckets :: "ptr list"

type_synonym bucket = "ptr \<times> nat"

datatype slot = First_ptr bucket | Next_ptr ptr

datatype event =
    Critical_section_begin thread
  | Critical_section_end thread
  | Write_synchronize
  | Release_store_invisible_epoch thread
  | Release_assign slot ptr
  | Delete_f ptr
  | Destroy_node ptr
  | Delete_table ptr

record 'v world =
  ASSERT :: bool
  tables :: "ptr \<Rightarrow> internal_table"
  table_heap :: "ptr list"
  node_next :: "ptr \<Rightarrow> ptr"
  node_value :: "ptr \<Rightarrow> 'v"
  events :: "event list"

record cht =
  table :: ptr
  new_table :: ptr
  log2_start_size :: nat
  log2_size_limit :: nat
  grow_hint :: nat
  size_limit_reached :: bool
  resize_lock :: bool
  resize_lock_owner :: thread
  invisible_epoch :: thread

text \<open>
  The callbacks of an instantiation. \<^verbatim>\<open>CONFIG::get_hash(value, &dead)\<close> returns the hash and
  the flag it stores; \<^verbatim>\<open>lookup_f.equals(value, &flag)\<close> gets the flag's value at the call and
  returns its result and the flag's value after the call.
\<close>

record 'v lookup_func =
  get_hash :: "64 word"
  equals :: "'v \<Rightarrow> bool \<Rightarrow> bool \<times> bool"

definition log_event :: "event \<Rightarrow> 'v world \<Rightarrow> 'v world" where
  "log_event e w = w\<lparr>events := events w @ [e]\<rparr>"

definition first_raw :: "'v world \<Rightarrow> bucket \<Rightarrow> ptr" where
  "first_raw w b = buckets (tables w (fst b)) ! snd b"

definition set_first_raw :: "'v world \<Rightarrow> bucket \<Rightarrow> ptr \<Rightarrow> 'v world" where
  "set_first_raw w b v =
     w\<lparr>tables := (tables w)(fst b := (tables w (fst b))\<lparr>buckets := (buckets (tables w (fst b)))[snd b := v]\<rparr>)\<rparr>"

fun load_slot :: "'v world \<Rightarrow> slot \<Rightarrow> ptr" where
  "load_slot w (First_ptr b) = first_raw w b"
| "load_slot w (Next_ptr n) = node_next w n"

fun store_slot :: "'v world \<Rightarrow> slot \<Rightarrow> ptr \<Rightarrow> 'v world" where
  "store_slot w (First_ptr b) v = set_first_raw w b v"
| "store_slot w (Next_ptr n) v = w\<lparr>node_next := (node_next w)(n := v)\<rparr>"

definition first :: "'v world \<Rightarrow> bucket \<Rightarrow> ptr" where
  "first w b = Bucket_first (first_raw w b)"

definition have_redirect :: "'v world \<Rightarrow> bucket \<Rightarrow> bool" where
  "have_redirect w b = Bucket_have_redirect (first_raw w b)"

definition is_locked :: "'v world \<Rightarrow> bucket \<Rightarrow> bool" where
  "is_locked w b = Bucket_is_locked (first_raw w b)"

definition trylock :: "'v world \<Rightarrow> bucket \<Rightarrow> bool \<times> 'v world" where
  "trylock w b = (case Bucket_trylock (first_raw w b) of (ok, f') \<Rightarrow> (ok, set_first_raw w b f'))"

definition lock :: "'v world \<Rightarrow> bucket \<Rightarrow> (error + 'v world) option" where
  "lock w b = map_option (\<lambda>f'. Inr (set_first_raw w b f')) (Bucket_lock (first_raw w b) 0)"

definition cas_first :: "'v world \<Rightarrow> bucket \<Rightarrow> ptr \<Rightarrow> ptr \<Rightarrow> bool \<times> 'v world" where
  "cas_first w b node expect =
     (case Bucket_cas_first (first_raw w b) node expect of (ok, f') \<Rightarrow> (ok, set_first_raw w b f'))"

definition unlock :: "'v world \<Rightarrow> bucket \<Rightarrow> error + 'v world" where
  "unlock w b = bindE (Bucket_unlock (ASSERT w) (first_raw w b)) (\<lambda>f'. Inr (set_first_raw w b f'))"

definition redirect :: "'v world \<Rightarrow> bucket \<Rightarrow> error + 'v world" where
  "redirect w b = bindE (Bucket_redirect (ASSERT w) (first_raw w b)) (\<lambda>f'. Inr (set_first_raw w b f'))"

definition release_assign_node_ptr :: "'v world \<Rightarrow> bucket \<Rightarrow> slot \<Rightarrow> ptr \<Rightarrow> error + 'v world" where
  "release_assign_node_ptr w b dst node =
     bindE (assert_that (ASSERT w) (is_locked w b) ''Must be locked.'') (\<lambda>_.
     Inr (log_event (Release_assign dst node) (store_slot w dst (clear_set_state node (load_slot w dst)))))"

partial_function (option) last_node_slot :: "'v world \<Rightarrow> slot \<Rightarrow> slot option" where
  "last_node_slot w ret =
     (if clear_state (load_slot w ret) \<noteq> NULL
      then last_node_slot w (Next_ptr (clear_state (load_slot w ret)))
      else Some ret)"

definition release_assign_last_node_next :: "'v world \<Rightarrow> bucket \<Rightarrow> ptr \<Rightarrow> (error + 'v world) option" where
  "release_assign_last_node_next w b node =
     bindR (Some (assert_that (ASSERT w) (is_locked w b) ''Must be locked.'')) (\<lambda>_.
     Option.bind (last_node_slot w (First_ptr b)) (\<lambda>ret.
     Some (release_assign_node_ptr w b ret node)))"

text \<open>
  Modelled from the spec: \<^verbatim>\<open>Node::destroy_node\<close> and the default constructor of
  \<^verbatim>\<open>Bucket\<close> are in the header. Destroying a node frees it (here: the call is logged, the
  memory is left as it is); a new bucket has a null head with both flags clear.
\<close>

definition destroy_node :: "'v world \<Rightarrow> ptr \<Rightarrow> 'v world" where
  "destroy_node w n = log_event (Destroy_node n) w"

definition InternalTable :: "nat \<Rightarrow> internal_table" where
  "InternalTable l =
     \<lparr>log2_size = l, tsize = 2 ^ l, hash_mask = NOT (push_bit l (NOT 0)),
      buckets = replicate (2 ^ l) NULL\<rparr>"

text \<open>
  \<^verbatim>\<open>new InternalTable(log2_size)\<close>: the allocator is outside the file; the addresses it
  will hand out are the list \<open>table_heap\<close>, in order (an exhausted list hands out
  \<^verbatim>\<open>NULL\<close>'s cell). \<^verbatim>\<open>delete\<close> is logged.
\<close>

definition new_InternalTable :: "'v world \<Rightarrow> nat \<Rightarrow> error + (ptr \<times> 'v world)" where
  "new_InternalTable w l =
     bindE (assert_that (ASSERT w) (SIZE_SMALL_LOG2 \<le> l \<and> l \<le> SIZE_BIG_LOG2) ''Bad size'') (\<lambda>_.
     let a = (case table_heap w of [] \<Rightarrow> NULL | x # _ \<Rightarrow> x) in
     Inr (a, w\<lparr>tables := (tables w)(a := InternalTable l), table_heap := tl (table_heap w)\<rparr>))"

definition delete_table :: "'v world \<Rightarrow> ptr \<Rightarrow> 'v world" where
  "delete_table w t = log_event (Delete_table t) w"

section \<open>ScopedCS and the resize lock\<close>

definition ScopedCS :: "thread \<Rightarrow> cht \<Rightarrow> 'v world \<Rightarrow> cht \<times> 'v world" where
  "ScopedCS thread c w =
     (let w1 = log_event (Critical_section_begin thread) w in
      if invisible_epoch c \<noteq> NULL then
        (c\<lparr>invisible_epoch := NULL\<rparr>, log_event (Release_store_invisible_epoch NULL) w1)
      else (c, w1))"

definition ScopedCS_destructor :: "thread \<Rightarrow> 'v world \<Rightarrow> 'v world" where
  "ScopedCS_destructor thread w = log_event (Critical_section_end thread) w"

definition write_synchonize_on_visible_epoch ::
  "thread \<Rightarrow> cht \<Rightarrow> 'v world \<Rightarrow> error + (cht \<times> 'v world)" where
  "write_synchonize_on_visible_epoch thread c w =
     bindE (assert_that (ASSERT w) (resize_lock_owner c = thread) ''Re-size lock not held'') (\<lambda>_.
     if invisible_epoch c = thread then Inr (c, w)
     else
       bindE (assert_that (ASSERT w) (invisible_epoch c = NULL) ''Two thread doing bulk operations'') (\<lambda>_.
       let c1 = c\<lparr>invisible_epoch := thread\<rparr>;
           w1 = log_event (Release_store_invisible_epoch thread) w
       in Inr (c1, log_event Write_synchronize w1)))"

text \<open>
  The mutex \<^verbatim>\<open>_resize_lock\<close> is the flag \<open>resize_lock\<close>: \<^verbatim>\<open>try_lock()\<close> succeeds exactly
  when it is free.
\<close>

definition try_resize_lock :: "bool \<Rightarrow> thread \<Rightarrow> cht \<Rightarrow> error + (bool \<times> cht)" where
  "try_resize_lock dbg locker c =
     (if \<not> resize_lock c then
        let c1 = c\<lparr>resize_lock := True\<rparr> in
        if resize_lock_owner c1 \<noteq> NULL then
          bindE (assert_that dbg (locker \<noteq> resize_lock_owner c1) ''Already own lock'') (\<lambda>_.
          Inr (False, c1\<lparr>resize_lock := False\<rparr>))
        else Inr (True, c1\<lparr>invisible_epoch := 0, resize_lock_owner := locker\<rparr>)
      else Inr (False, c))"

definition unlock_resize_lock :: "bool \<Rightarrow> thread \<Rightarrow> cht \<Rightarrow> error + cht" where
  "unlock_resize_lock dbg locker c =
     (let c1 = c\<lparr>invisible_epoch := 0\<rparr> in
      bindE (assert_that dbg (locker = resize_lock_owner c1) ''Not unlocked by locker.'') (\<lambda>_.
      Inr (c1\<lparr>resize_lock_owner := NULL, resize_lock := False\<rparr>)))"

definition set_table_from_new :: "cht \<Rightarrow> 'v world \<Rightarrow> ptr \<times> cht \<times> 'v world" where
  "set_table_from_new c w =
     (let old_table = table c;
          c1 = c\<lparr>table := new_table c\<rparr>;
          w1 = log_event Write_synchronize w;
          c2 = c1\<lparr>new_table := NULL\<rparr>;
          c3 = (if ASSERT w then c2\<lparr>new_table := POISON_PTR\<rparr> else c2)
      in (old_table, c3, w1))"

section \<open>Finding a bucket and a node\<close>

text \<open>
  Modelled from the spec: \<^verbatim>\<open>bucket_idx_hash\<close>, \<^verbatim>\<open>get_bucket_in\<close>,
  \<^verbatim>\<open>is_max_size_reached\<close>, \<^verbatim>\<open>Node::set_next\<close>, \<^verbatim>\<open>do_bulk_delete_locked\<close> and the
  constant \<^verbatim>\<open>BULK_DELETE_LIMIT\<close> are in the header. The spec: the bucket of a hash in a table
  is \<^verbatim>\<open>buckets[hash & mask]\<close>; grow returns false if already at max size
  (\<^verbatim>\<open>size_limit_reached\<close>); the whole-table bulk delete is the range
  \<^verbatim>\<open>[0, size)\<close> with the visible-epoch synchronize; the reference uses 256 for the limit.
\<close>

definition bucket_idx_hash :: "internal_table \<Rightarrow> 64 word \<Rightarrow> nat" where
  "bucket_idx_hash t hash = unat (hash AND hash_mask t)"

definition get_bucket_in :: "'v world \<Rightarrow> ptr \<Rightarrow> 64 word \<Rightarrow> bucket" where
  "get_bucket_in w t hash = (t, bucket_idx_hash (tables w t) hash)"

definition is_max_size_reached :: "cht \<Rightarrow> bool" where
  "is_max_size_reached c = size_limit_reached c"

definition set_next :: "'v world \<Rightarrow> ptr \<Rightarrow> ptr \<Rightarrow> 'v world" where
  "set_next w n v = w\<lparr>node_next := (node_next w)(n := v)\<rparr>"

definition BULK_DELETE_LIMIT :: nat where
  "BULK_DELETE_LIMIT = 256"

definition get_bucket :: "cht \<Rightarrow> 'v world \<Rightarrow> 64 word \<Rightarrow> bucket" where
  "get_bucket c w hash =
     (let bucket = get_bucket_in w (table c) hash in
      if have_redirect w bucket then get_bucket_in w (new_table c) hash else bucket)"

partial_function (option) get_bucket_locked_loop ::
  "thread \<Rightarrow> 64 word \<Rightarrow> cht \<Rightarrow> 'v world \<Rightarrow> nat \<Rightarrow> (bucket \<times> cht \<times> 'v world) option" where
  "get_bucket_locked_loop thread hash c w i =
     (case ScopedCS thread c w of (c1, w1) \<Rightarrow>
        let bucket = get_bucket c1 w1 hash in
        case trylock w1 bucket of (ok, w2) \<Rightarrow>
          let w3 = ScopedCS_destructor thread w2 in
          if ok then Some (bucket, c1, w3)
          else get_bucket_locked_loop thread hash c1 w3
                 (if Suc i = SPINPAUSES_PER_YIELD then 0 else Suc i))"

definition get_bucket_locked ::
  "thread \<Rightarrow> 64 word \<Rightarrow> cht \<Rightarrow> 'v world \<Rightarrow> (bucket \<times> cht \<times> 'v world) option" where
  "get_bucket_locked thread hash c w = get_bucket_locked_loop thread hash c w 0"

text \<open>
  \<^verbatim>\<open>get_node\<close>: the loop, with \<^verbatim>\<open>*have_dead\<close> and \<^verbatim>\<open>loop_count\<close> as arguments. The counter
  is a \<^verbatim>\<open>size_t\<close> that counts nodes of one chain; it is a \<open>nat\<close> here. The argument
  \<open>loops\<close> is \<open>None\<close> for a null pointer.
\<close>

partial_function (option) get_node_loop ::
  "'v world \<Rightarrow> 'v lookup_func \<Rightarrow> ptr \<Rightarrow> bool \<Rightarrow> nat \<Rightarrow> (ptr \<times> bool \<times> nat) option" where
  "get_node_loop w lookup_f node have_dead loop_count =
     (if node \<noteq> NULL then
        (case equals lookup_f (node_value w node) False of (eq, is_dead) \<Rightarrow>
           if eq then Some (node, have_dead, Suc loop_count)
           else get_node_loop w lookup_f (node_next w node)
                  (if is_dead \<and> \<not> have_dead then True else have_dead) (Suc loop_count))
      else Some (node, have_dead, loop_count))"

definition get_node ::
  "'v world \<Rightarrow> bucket \<Rightarrow> 'v lookup_func \<Rightarrow> bool \<Rightarrow> nat option \<Rightarrow> (ptr \<times> bool \<times> nat option) option" where
  "get_node w bucket lookup_f have_dead loops =
     map_option (\<lambda>(node, have_dead', loop_count).
         (node, have_dead', if loops \<noteq> None then Some loop_count else loops))
       (get_node_loop w lookup_f (first w bucket) have_dead 0)"

section \<open>Grow\<close>

text \<open>One iteration of the loop of \<^verbatim>\<open>unzip_bucket\<close>, entered with \<^verbatim>\<open>aux != NULL\<close>.\<close>

definition unzip_step ::
  "thread \<Rightarrow> ('v \<Rightarrow> 64 word \<times> bool) \<Rightarrow> ptr \<Rightarrow> nat \<Rightarrow> nat \<Rightarrow> cht \<Rightarrow> 'v world \<Rightarrow>
   ptr \<Rightarrow> slot \<Rightarrow> slot \<Rightarrow> error + (cht \<times> 'v world \<times> ptr \<times> slot \<times> slot)" where
  "unzip_step thread CONFIG_get_hash new_t even_index odd_index c w aux even_p odd_p =
     (case CONFIG_get_hash (node_value w aux) of (aux_hash, dead_hash) \<Rightarrow>
      bindE
        (if dead_hash then
           bindE (release_assign_node_ptr w (new_t, odd_index) odd_p (node_next w aux)) (\<lambda>w1.
           bindE (release_assign_node_ptr w1 (new_t, even_index) even_p (node_next w1 aux)) (\<lambda>w2.
           Inr (aux, even_p, odd_p, w2)))
         else
           let aux_index = bucket_idx_hash (tables w new_t) aux_hash in
           if aux_index = even_index then
             bindE (release_assign_node_ptr w (new_t, odd_index) odd_p (node_next w aux)) (\<lambda>w1.
             Inr (NULL, Next_ptr aux, odd_p, w1))
           else if aux_index = odd_index then
             bindE (release_assign_node_ptr w (new_t, even_index) even_p (node_next w aux)) (\<lambda>w1.
             Inr (NULL, even_p, Next_ptr aux, w1))
           else Inl (Fatal ''aux_index does not match even or odd indices''))
        (\<lambda>(delete_me, even_p', odd_p', w3).
           let aux' = node_next w3 aux in
           bindE (write_synchonize_on_visible_epoch thread c w3) (\<lambda>(c4, w4).
           Inr (c4, (if delete_me \<noteq> NULL then destroy_node w4 delete_me else w4),
                aux', even_p', odd_p'))))"

partial_function (option) unzip_loop ::
  "thread \<Rightarrow> ('v \<Rightarrow> 64 word \<times> bool) \<Rightarrow> ptr \<Rightarrow> nat \<Rightarrow> nat \<Rightarrow> cht \<Rightarrow> 'v world \<Rightarrow>
   ptr \<Rightarrow> slot \<Rightarrow> slot \<Rightarrow> (error + (cht \<times> 'v world)) option" where
  "unzip_loop thread CONFIG_get_hash new_t even_index odd_index c w aux even_p odd_p =
     (if aux \<noteq> NULL then
        bindR (Some (unzip_step thread CONFIG_get_hash new_t even_index odd_index c w aux even_p odd_p))
          (\<lambda>(c1, w1, aux', even_p', odd_p').
             unzip_loop thread CONFIG_get_hash new_t even_index odd_index c1 w1 aux' even_p' odd_p')
      else Some (Inr (c, w)))"

definition unzip_bucket ::
  "thread \<Rightarrow> ('v \<Rightarrow> 64 word \<times> bool) \<Rightarrow> ptr \<Rightarrow> ptr \<Rightarrow> nat \<Rightarrow> nat \<Rightarrow> cht \<Rightarrow> 'v world \<Rightarrow>
   (error + (bool \<times> cht \<times> 'v world)) option" where
  "unzip_bucket thread CONFIG_get_hash old_t new_t even_index odd_index c w =
     (let aux = first w (old_t, even_index) in
      if aux = NULL then Some (Inr (False, c, w))
      else
        bindR (unzip_loop thread CONFIG_get_hash new_t even_index odd_index c w aux
                 (First_ptr (new_t, even_index)) (First_ptr (new_t, odd_index)))
          (\<lambda>(c1, w1). Some (Inr (True, c1, w1))))"

text \<open>The body of the loop of \<^verbatim>\<open>internal_grow_range\<close>, for one \<^verbatim>\<open>even_index\<close>.\<close>

definition internal_grow_bucket ::
  "thread \<Rightarrow> ('v \<Rightarrow> 64 word \<times> bool) \<Rightarrow> nat \<Rightarrow> cht \<Rightarrow> 'v world \<Rightarrow>
   (error + (cht \<times> 'v world)) option" where
  "internal_grow_bucket thread CONFIG_get_hash even_index c w =
     (let bucket = (table c, even_index) in
      bindR (lock w bucket) (\<lambda>w1.
      let odd_index = even_index + tsize (tables w1 (table c));
          w2 = set_first_raw w1 (new_table c, even_index) (first_raw w1 bucket);
          w3 = set_first_raw w2 (new_table c, odd_index) (first_raw w2 bucket) in
      bindR (Some (redirect w3 bucket)) (\<lambda>w4.
      bindR (unzip_bucket thread CONFIG_get_hash (table c) (new_table c) even_index odd_index c w4)
        (\<lambda>(nonempty, c5, w5).
      let w6 = (if \<not> nonempty \<and> ASSERT w5 then log_event Write_synchronize w5 else w5) in
      bindR (Some (unlock w6 (new_table c5, even_index))) (\<lambda>w7.
      bindR (Some (unlock w7 (new_table c5, odd_index))) (\<lambda>w8.
      bindR (Some (if ASSERT w8
                   then release_assign_node_ptr w8 bucket (First_ptr (table c5, even_index)) POISON_PTR
                   else Inr w8)) (\<lambda>w9.
      Some (Inr (c5, w9)))))))))"

partial_function (option) internal_grow_range_loop ::
  "thread \<Rightarrow> ('v \<Rightarrow> 64 word \<times> bool) \<Rightarrow> nat \<Rightarrow> nat \<Rightarrow> cht \<Rightarrow> 'v world \<Rightarrow>
   (error + (cht \<times> 'v world)) option" where
  "internal_grow_range_loop thread CONFIG_get_hash even_index stop c w =
     (if even_index < stop then
        bindR (internal_grow_bucket thread CONFIG_get_hash even_index c w) (\<lambda>(c1, w1).
        internal_grow_range_loop thread CONFIG_get_hash (Suc even_index) stop c1 w1)
      else Some (Inr (c, w)))"

definition internal_grow_range ::
  "thread \<Rightarrow> ('v \<Rightarrow> 64 word \<times> bool) \<Rightarrow> nat \<Rightarrow> nat \<Rightarrow> cht \<Rightarrow> 'v world \<Rightarrow>
   (error + (cht \<times> 'v world)) option" where
  "internal_grow_range thread CONFIG_get_hash start stop c w =
     bindR (Some (assert_that (ASSERT w) (stop \<le> tsize (tables w (table c))) ''Outside backing array'')) (\<lambda>_.
     bindR (Some (assert_that (ASSERT w) (new_table c \<noteq> NULL) ''Grow not proper setup before start'')) (\<lambda>_.
     internal_grow_range_loop thread CONFIG_get_hash start stop c w))"

definition internal_grow_prolog ::
  "thread \<Rightarrow> nat \<Rightarrow> cht \<Rightarrow> 'v world \<Rightarrow> error + (bool \<times> cht \<times> 'v world)" where
  "internal_grow_prolog thread l c w =
     (if is_max_size_reached c then Inr (False, c, w)
      else
        bindE (try_resize_lock (ASSERT w) thread c) (\<lambda>(ok, c1).
        if \<not> ok then Inr (False, c1, w)
        else if is_max_size_reached c1 \<or> l \<le> log2_size (tables w (table c1)) then
          bindE (unlock_resize_lock (ASSERT w) thread c1) (\<lambda>c2. Inr (False, c2, w))
        else
          bindE (new_InternalTable w (log2_size (tables w (table c1)) + 1)) (\<lambda>(a, w1).
          let c2 = c1\<lparr>new_table := a\<rparr>;
              c3 = (if log2_size (tables w1 (new_table c2)) = log2_size_limit c2
                    then c2\<lparr>size_limit_reached := True\<rparr> else c2)
          in Inr (True, c3, w1))))"

text \<open>
  The loop under \<^verbatim>\<open>#ifdef ASSERT\<close> in both epilogs:
  \<^verbatim>\<open>for (size_t i = 0; i < old_table->_size; i++) assert(old_table->get_bucket(i++)->first() == POISON_PTR)\<close>.
  The argument of \<^verbatim>\<open>get_bucket\<close> is the value of \<open>i\<close> before its increment; the loop header
  increments \<open>i\<close> once more.
\<close>

function assert_poison_loop :: "'v world \<Rightarrow> ptr \<Rightarrow> nat \<Rightarrow> error + unit" where
  "assert_poison_loop w old_table i =
     (if i < tsize (tables w old_table) then
        (if first w (old_table, i) = POISON_PTR
         then assert_poison_loop w old_table (Suc (Suc i))
         else Inl (Assert_failed ''No poison found''))
      else Inr ())"
  by pat_completeness auto
termination
  by (relation "measure (\<lambda>(w, old_table, i). tsize (tables w old_table) - i)") auto

declare assert_poison_loop.simps [simp del]

definition internal_grow_epilog :: "thread \<Rightarrow> cht \<Rightarrow> 'v world \<Rightarrow> error + (cht \<times> 'v world)" where
  "internal_grow_epilog thread c w =
     bindE (assert_that (ASSERT w) (resize_lock_owner c = thread) ''Should be locked'') (\<lambda>_.
     case set_table_from_new c w of (old_table, c1, w1) \<Rightarrow>
     bindE (unlock_resize_lock (ASSERT w1) thread c1) (\<lambda>c2.
     bindE (if ASSERT w1 then assert_poison_loop w1 old_table 0 else Inr ()) (\<lambda>_.
     Inr (c2, delete_table w1 old_table))))"

definition internal_grow ::
  "thread \<Rightarrow> ('v \<Rightarrow> 64 word \<times> bool) \<Rightarrow> nat \<Rightarrow> cht \<Rightarrow> 'v world \<Rightarrow>
   (error + (bool \<times> cht \<times> 'v world)) option" where
  "internal_grow thread CONFIG_get_hash l c w =
     bindR (Some (internal_grow_prolog thread l c w)) (\<lambda>(ok, c1, w1).
     if \<not> ok then
       bindR (Some (assert_that (ASSERT w1) (resize_lock_owner c1 \<noteq> thread) ''Re-size lock held'')) (\<lambda>_.
       Some (Inr (False, c1, w1)))
     else
       bindR (Some (assert_that (ASSERT w1) (resize_lock_owner c1 = thread) ''Should be locked by me'')) (\<lambda>_.
       bindR (internal_grow_range thread CONFIG_get_hash 0 (tsize (tables w1 (table c1))) c1 w1) (\<lambda>(c2, w2).
       bindR (Some (internal_grow_epilog thread c2 w2)) (\<lambda>(c3, w3).
       bindR (Some (assert_that (ASSERT w3) (resize_lock_owner c3 \<noteq> thread) ''Re-size lock held'')) (\<lambda>_.
       Some (Inr (True, c3, w3)))))))"

definition grow ::
  "thread \<Rightarrow> ('v \<Rightarrow> 64 word \<times> bool) \<Rightarrow> nat \<Rightarrow> cht \<Rightarrow> 'v world \<Rightarrow>
   (error + (bool \<times> cht \<times> 'v world)) option" where
  "grow thread CONFIG_get_hash size_limit_log2 c w =
     (let tmp = (if size_limit_log2 = 0 then log2_size_limit c else size_limit_log2) in
      internal_grow thread CONFIG_get_hash tmp c w)"

section \<open>Shrink\<close>

text \<open>
  \<^verbatim>\<open>_table->_log2_size - 1\<close> is only evaluated when \<^verbatim>\<open>_table->_log2_size <= log2_size\<close>
  is false, so the \<^verbatim>\<open>size_t\<close> subtraction does not wrap.
\<close>

definition internal_shrink_prolog ::
  "thread \<Rightarrow> nat \<Rightarrow> cht \<Rightarrow> 'v world \<Rightarrow> error + (bool \<times> cht \<times> 'v world)" where
  "internal_shrink_prolog thread l c w =
     bindE (try_resize_lock (ASSERT w) thread c) (\<lambda>(ok, c1).
     if \<not> ok then Inr (False, c1, w)
     else
       bindE (assert_that (ASSERT w) (resize_lock_owner c1 = thread) ''Re-size lock not held'') (\<lambda>_.
       if log2_size (tables w (table c1)) = log2_start_size c1 \<or> log2_size (tables w (table c1)) \<le> l then
         bindE (unlock_resize_lock (ASSERT w) thread c1) (\<lambda>c2. Inr (False, c2, w))
       else
         bindE (new_InternalTable w (log2_size (tables w (table c1)) - 1)) (\<lambda>(a, w1).
         Inr (True, c1\<lparr>new_table := a\<rparr>, w1))))"

definition internal_shrink_epilog :: "thread \<Rightarrow> cht \<Rightarrow> 'v world \<Rightarrow> error + (cht \<times> 'v world)" where
  "internal_shrink_epilog thread c w =
     bindE (assert_that (ASSERT w) (resize_lock_owner c = thread) ''Re-size lock not held'') (\<lambda>_.
     case set_table_from_new c w of (old_table, c1, w1) \<Rightarrow>
     bindE (unlock_resize_lock (ASSERT w1) thread (c1\<lparr>size_limit_reached := False\<rparr>)) (\<lambda>c2.
     bindE (if ASSERT w1 then assert_poison_loop w1 old_table 0 else Inr ()) (\<lambda>_.
     Inr (c2, delete_table w1 old_table))))"

text \<open>The body of the loop of \<^verbatim>\<open>internal_shrink_range\<close>, for one \<^verbatim>\<open>bucket_it\<close>.\<close>

definition internal_shrink_bucket ::
  "thread \<Rightarrow> nat \<Rightarrow> cht \<Rightarrow> 'v world \<Rightarrow> (error + (cht \<times> 'v world)) option" where
  "internal_shrink_bucket thread bucket_it c w =
     (let even_hash_index = bucket_it;
          odd_hash_index = bucket_it + tsize (tables w (new_table c));
          b_old_even = (table c, even_hash_index);
          b_old_odd = (table c, odd_hash_index) in
      bindR (lock w b_old_even) (\<lambda>w1.
      bindR (lock w1 b_old_odd) (\<lambda>w2.
      let w3 = set_first_raw w2 (new_table c, bucket_it) (first_raw w2 b_old_even) in
      bindR (release_assign_last_node_next w3 (new_table c, bucket_it) (first_raw w3 b_old_odd)) (\<lambda>w4.
      bindR (Some (redirect w4 b_old_even)) (\<lambda>w5.
      bindR (Some (redirect w5 b_old_odd)) (\<lambda>w6.
      bindR (Some (write_synchonize_on_visible_epoch thread c w6)) (\<lambda>(c7, w7).
      bindR (Some (unlock w7 (new_table c7, bucket_it))) (\<lambda>w8.
      bindR (Some (if ASSERT w8
                   then bindE (release_assign_node_ptr w8 b_old_even (First_ptr b_old_even) POISON_PTR) (\<lambda>w9.
                        release_assign_node_ptr w9 b_old_odd (First_ptr b_old_odd) POISON_PTR)
                   else Inr w8)) (\<lambda>w10.
      Some (Inr (c7, w10)))))))))))"

partial_function (option) internal_shrink_range_loop ::
  "thread \<Rightarrow> nat \<Rightarrow> nat \<Rightarrow> cht \<Rightarrow> 'v world \<Rightarrow> (error + (cht \<times> 'v world)) option" where
  "internal_shrink_range_loop thread bucket_it stop c w =
     (if bucket_it < stop then
        bindR (internal_shrink_bucket thread bucket_it c w) (\<lambda>(c1, w1).
        internal_shrink_range_loop thread (Suc bucket_it) stop c1 w1)
      else Some (Inr (c, w)))"

definition internal_shrink ::
  "thread \<Rightarrow> nat \<Rightarrow> cht \<Rightarrow> 'v world \<Rightarrow> (error + (bool \<times> cht \<times> 'v world)) option" where
  "internal_shrink thread l c w =
     bindR (Some (internal_shrink_prolog thread l c w)) (\<lambda>(ok, c1, w1).
     if \<not> ok then
       bindR (Some (assert_that (ASSERT w1) (resize_lock_owner c1 \<noteq> thread) ''Re-size lock held'')) (\<lambda>_.
       Some (Inr (False, c1, w1)))
     else
       bindR (Some (assert_that (ASSERT w1) (resize_lock_owner c1 = thread) ''Should be locked by me'')) (\<lambda>_.
       bindR (internal_shrink_range_loop thread 0 (tsize (tables w1 (new_table c1))) c1 w1) (\<lambda>(c2, w2).
       bindR (Some (internal_shrink_epilog thread c2 w2)) (\<lambda>(c3, w3).
       bindR (Some (assert_that (ASSERT w3) (resize_lock_owner c3 \<noteq> thread) ''Re-size lock held'')) (\<lambda>_.
       Some (Inr (True, c3, w3)))))))"

definition shrink ::
  "thread \<Rightarrow> nat \<Rightarrow> cht \<Rightarrow> 'v world \<Rightarrow> (error + (bool \<times> cht \<times> 'v world)) option" where
  "shrink thread size_limit_log2 c w =
     (let tmp = (if size_limit_log2 = 0 then log2_start_size c else size_limit_log2) in
      internal_shrink thread tmp c w)"

section \<open>Remove and bulk delete\<close>

partial_function (option) internal_remove_loop ::
  "'v world \<Rightarrow> bucket \<Rightarrow> 'v lookup_func \<Rightarrow> slot \<Rightarrow> ptr \<Rightarrow> bool \<Rightarrow> (error + (ptr \<times> 'v world)) option" where
  "internal_remove_loop w bucket lookup_f rem_n_prev rem_n have_dead =
     (if rem_n \<noteq> NULL then
        (case equals lookup_f (node_value w rem_n) have_dead of (eq, have_dead') \<Rightarrow>
           if eq then
             Some (bindE (release_assign_node_ptr w bucket rem_n_prev (node_next w rem_n)) (\<lambda>w1.
                   Inr (rem_n, w1)))
           else internal_remove_loop w bucket lookup_f (Next_ptr rem_n) (node_next w rem_n) have_dead')
      else Some (Inr (rem_n, w)))"

definition internal_remove ::
  "thread \<Rightarrow> 'v lookup_func \<Rightarrow> cht \<Rightarrow> 'v world \<Rightarrow> (error + (bool \<times> cht \<times> 'v world)) option" where
  "internal_remove thread lookup_f c w =
     Option.bind (get_bucket_locked thread (get_hash lookup_f) c w) (\<lambda>(bucket, c1, w1).
     bindR (Some (assert_that (ASSERT w1) (is_locked w1 bucket) ''Must be locked.'')) (\<lambda>_.
     bindR (internal_remove_loop w1 bucket lookup_f (First_ptr bucket) (first w1 bucket) False)
       (\<lambda>(rem_n, w2).
     bindR (Some (unlock w2 bucket)) (\<lambda>w3.
     if rem_n = NULL then Some (Inr (False, c1, w3))
     else
       let w4 = log_event Write_synchronize w3;
           w5 = log_event (Delete_f rem_n) w4;
           w6 = destroy_node w5 rem_n
       in Some (Inr (True, c1, w6))))))"

text \<open>
  \<^verbatim>\<open>have_deletable\<close>: the two instantiations differ only by calls of \<^verbatim>\<open>Prefetch::read\<close>,
  which change nothing.
\<close>

partial_function (option) have_deletable_loop :: "'v world \<Rightarrow> ('v \<Rightarrow> bool) \<Rightarrow> ptr \<Rightarrow> bool option" where
  "have_deletable_loop w eval_f next =
     (if next \<noteq> NULL then
        (if eval_f (node_value w next) then Some True
         else have_deletable_loop w eval_f (node_next w next))
      else Some False)"

definition have_deletable :: "'v world \<Rightarrow> bucket \<Rightarrow> ('v \<Rightarrow> bool) \<Rightarrow> bool option" where
  "have_deletable w bucket eval_f = have_deletable_loop w eval_f (first w bucket)"

text \<open>
  \<^verbatim>\<open>delete_check_nodes\<close>: the array \<^verbatim>\<open>ndel\<close> and the count \<^verbatim>\<open>dels\<close> are the list
  \<open>ndel\<close> and its length.
\<close>

partial_function (option) delete_check_nodes_loop ::
  "'v world \<Rightarrow> bucket \<Rightarrow> ('v \<Rightarrow> bool) \<Rightarrow> nat \<Rightarrow> slot \<Rightarrow> ptr \<Rightarrow> ptr list \<Rightarrow>
   (error + (ptr list \<times> 'v world)) option" where
  "delete_check_nodes_loop w bucket eval_f num_del rem_n_prev rem_n ndel =
     (if rem_n \<noteq> NULL then
        (if eval_f (node_value w rem_n) then
           bindR (Some (release_assign_node_ptr w bucket rem_n_prev (node_next w rem_n))) (\<lambda>w1.
           if length (ndel @ [rem_n]) = num_del then Some (Inr (ndel @ [rem_n], w1))
           else delete_check_nodes_loop w1 bucket eval_f num_del rem_n_prev (node_next w1 rem_n)
                  (ndel @ [rem_n]))
         else delete_check_nodes_loop w bucket eval_f num_del (Next_ptr rem_n) (node_next w rem_n) ndel)
      else Some (Inr (ndel, w)))"

definition delete_check_nodes ::
  "'v world \<Rightarrow> bucket \<Rightarrow> ('v \<Rightarrow> bool) \<Rightarrow> nat \<Rightarrow> (error + (ptr list \<times> 'v world)) option" where
  "delete_check_nodes w bucket eval_f num_del =
     delete_check_nodes_loop w bucket eval_f num_del (First_ptr bucket) (first w bucket) []"

fun delete_nodes :: "'v world \<Rightarrow> ptr list \<Rightarrow> 'v world" where
  "delete_nodes w [] = w"
| "delete_nodes w (n # ns) = delete_nodes (destroy_node (log_event (Delete_f n) w) n) ns"

text \<open>The body of the loop of \<^verbatim>\<open>do_bulk_delete_locked_for\<close>, for one \<^verbatim>\<open>bucket_it\<close>.\<close>

definition do_bulk_delete_bucket ::
  "thread \<Rightarrow> ptr \<Rightarrow> nat \<Rightarrow> ('v \<Rightarrow> bool) \<Rightarrow> bool \<Rightarrow> cht \<Rightarrow> 'v world \<Rightarrow>
   (error + (cht \<times> 'v world)) option" where
  "do_bulk_delete_bucket thread t bucket_it eval_f is_mt c w =
     (let bucket = (t, bucket_it) in
      Option.bind (have_deletable w bucket eval_f) (\<lambda>found.
      if \<not> found then Some (Inr (c, w))
      else
        let w1 = log_event (Critical_section_end thread) w in
        bindR (lock w1 bucket) (\<lambda>w2.
        bindR (delete_check_nodes w2 bucket eval_f BULK_DELETE_LIMIT) (\<lambda>(ndel, w3).
        bindR (Some (unlock w3 bucket)) (\<lambda>w4.
        bindR (Some (if is_mt then Inr (c, log_event Write_synchronize w4)
                     else write_synchonize_on_visible_epoch thread c w4)) (\<lambda>(c5, w5).
        let w6 = delete_nodes w5 ndel;
            w7 = log_event (Critical_section_begin thread) w6 in
        Some (Inr (c5, w7))))))))"

partial_function (option) do_bulk_delete_loop ::
  "thread \<Rightarrow> ptr \<Rightarrow> nat \<Rightarrow> nat \<Rightarrow> ('v \<Rightarrow> bool) \<Rightarrow> bool \<Rightarrow> cht \<Rightarrow> 'v world \<Rightarrow>
   (error + (cht \<times> 'v world)) option" where
  "do_bulk_delete_loop thread t bucket_it stop_idx eval_f is_mt c w =
     (if bucket_it < stop_idx then
        bindR (do_bulk_delete_bucket thread t bucket_it eval_f is_mt c w) (\<lambda>(c1, w1).
        do_bulk_delete_loop thread t (Suc bucket_it) stop_idx eval_f is_mt c1 w1)
      else Some (Inr (c, w)))"

definition do_bulk_delete_locked_for ::
  "thread \<Rightarrow> nat \<Rightarrow> nat \<Rightarrow> ('v \<Rightarrow> bool) \<Rightarrow> bool \<Rightarrow> cht \<Rightarrow> 'v world \<Rightarrow>
   (error + (cht \<times> 'v world)) option" where
  "do_bulk_delete_locked_for thread start_idx stop_idx eval_f is_mt c w =
     bindR (Some (assert_that (ASSERT w)
               ((is_mt \<and> resize_lock_owner c \<noteq> NULL) \<or> (\<not> is_mt \<and> resize_lock_owner c = thread))
               ''Re-size lock not held'')) (\<lambda>_.
     bindR (Some (assert_that (ASSERT w) (start_idx < stop_idx) ''Must be'')) (\<lambda>_.
     bindR (Some (assert_that (ASSERT w) (stop_idx \<le> tsize (tables w (table c))) ''Must be'')) (\<lambda>_.
     bindR (do_bulk_delete_loop thread (table c) start_idx stop_idx eval_f is_mt c
              (log_event (Critical_section_begin thread) w)) (\<lambda>(c1, w1).
     Some (Inr (c1, log_event (Critical_section_end thread) w1))))))"

definition do_bulk_delete_locked ::
  "thread \<Rightarrow> ('v \<Rightarrow> bool) \<Rightarrow> cht \<Rightarrow> 'v world \<Rightarrow> (error + (cht \<times> 'v world)) option" where
  "do_bulk_delete_locked thread eval_f c w =
     do_bulk_delete_locked_for thread 0 (tsize (tables w (table c))) eval_f False c w"

definition try_bulk_delete ::
  "thread \<Rightarrow> ('v \<Rightarrow> bool) \<Rightarrow> cht \<Rightarrow> 'v world \<Rightarrow> (error + (bool \<times> cht \<times> 'v world)) option" where
  "try_bulk_delete thread eval_f c w =
     bindR (Some (try_resize_lock (ASSERT w) thread c)) (\<lambda>(ok, c1).
     if \<not> ok then Some (Inr (False, c1, w))
     else
       bindR (do_bulk_delete_locked thread eval_f c1 w) (\<lambda>(c2, w2).
       bindR (Some (unlock_resize_lock (ASSERT w2) thread c2)) (\<lambda>c3.
       bindR (Some (assert_that (ASSERT w2) (resize_lock_owner c3 \<noteq> thread) ''Re-size lock held'')) (\<lambda>_.
       Some (Inr (True, c3, w2))))))"

section \<open>Moving the nodes to another table\<close>

text \<open>
  One iteration of the inner loop of \<^verbatim>\<open>try_move_nodes_to\<close>, entered with
  \<^verbatim>\<open>bucket->first() != NULL\<close>.
\<close>

definition move_node_step ::
  "('v \<Rightarrow> 64 word \<times> bool) \<Rightarrow> bucket \<Rightarrow> cht \<Rightarrow> 'v world \<Rightarrow> error + 'v world" where
  "move_node_step CONFIG_get_hash bucket to_cht w =
     (let move_node = first w bucket in
      case cas_first w bucket (node_next w move_node) move_node of (ok, w1) \<Rightarrow>
      bindE (assert_that (ASSERT w1) ok ''Uncontended cas must work'') (\<lambda>_.
      case CONFIG_get_hash (node_value w1 move_node) of (insert_hash, dead_hash) \<Rightarrow>
      if \<not> dead_hash then
        let insert_bucket = get_bucket to_cht w1 insert_hash in
        bindE (assert_that (ASSERT w1) (\<not> have_redirect w1 bucket \<and> \<not> is_locked w1 bucket)
                 ''Not bit should be present'') (\<lambda>_.
        let w2 = set_next w1 move_node (first w1 insert_bucket) in
        case cas_first w2 insert_bucket move_node (first w2 insert_bucket) of (ok2, w3) \<Rightarrow>
        bindE (assert_that (ASSERT w3) ok2 ''Uncontended cas must work'') (\<lambda>_.
        Inr w3))
      else Inr w1))"

partial_function (option) move_bucket_loop ::
  "('v \<Rightarrow> 64 word \<times> bool) \<Rightarrow> bucket \<Rightarrow> cht \<Rightarrow> 'v world \<Rightarrow> (error + 'v world) option" where
  "move_bucket_loop CONFIG_get_hash bucket to_cht w =
     (if first w bucket \<noteq> NULL then
        bindR (Some (move_node_step CONFIG_get_hash bucket to_cht w)) (\<lambda>w1.
        move_bucket_loop CONFIG_get_hash bucket to_cht w1)
      else Some (Inr w))"

partial_function (option) move_nodes_loop ::
  "('v \<Rightarrow> 64 word \<times> bool) \<Rightarrow> ptr \<Rightarrow> nat \<Rightarrow> cht \<Rightarrow> 'v world \<Rightarrow> (error + 'v world) option" where
  "move_nodes_loop CONFIG_get_hash t bucket_it to_cht w =
     (if bucket_it < tsize (tables w t) then
        let bucket = (t, bucket_it) in
        bindR (Some (assert_that (ASSERT w) (\<not> have_redirect w bucket \<and> \<not> is_locked w bucket)
                       ''Table must be uncontended'')) (\<lambda>_.
        bindR (move_bucket_loop CONFIG_get_hash bucket to_cht w) (\<lambda>w1.
        move_nodes_loop CONFIG_get_hash t (Suc bucket_it) to_cht w1))
      else Some (Inr w))"

definition try_move_nodes_to ::
  "thread \<Rightarrow> ('v \<Rightarrow> 64 word \<times> bool) \<Rightarrow> cht \<Rightarrow> cht \<Rightarrow> 'v world \<Rightarrow>
   (error + (bool \<times> cht \<times> 'v world)) option" where
  "try_move_nodes_to thread CONFIG_get_hash c to_cht w =
     bindR (Some (try_resize_lock (ASSERT w) thread c)) (\<lambda>(ok, c1).
     if \<not> ok then Some (Inr (False, c1, w))
     else
       bindR (Some (assert_that (ASSERT w) (new_table c1 = NULL \<or> new_table c1 = POISON_PTR)
                      ''Must be NULL'')) (\<lambda>_.
       bindR (move_nodes_loop CONFIG_get_hash (table c1) 0 to_cht w) (\<lambda>w1.
       bindR (Some (unlock_resize_lock (ASSERT w1) thread c1)) (\<lambda>c2.
       Some (Inr (True, c2, w1))))))"

section \<open>The bucket head: the redirect state is terminal\<close>

lemma bit_STATE_MASK: "bit STATE_MASK n \<longleftrightarrow> n < 2"
proof -
  have "bit (mask 2 :: ptr) n \<longleftrightarrow> n < 2" by (auto simp: bit_mask_iff)
  moreover have "mask 2 = (3::ptr)" by (simp add: mask_eq_exp_minus_1)
  ultimately show ?thesis by (simp add: STATE_MASK_def)
qed

lemma bit_STATE_REDIRECT_BIT: "bit STATE_REDIRECT_BIT n \<longleftrightarrow> n = 1"
  by (auto simp: STATE_REDIRECT_BIT_def bit_2_iff)

lemma bit_STATE_LOCK_BIT: "bit STATE_LOCK_BIT n \<longleftrightarrow> n = 0"
  by (simp add: STATE_LOCK_BIT_def bit_1_iff)

lemma is_locked_iff: "Bucket_is_locked f \<longleftrightarrow> bit f 0"
proof
  assume "Bucket_is_locked f"
  then have "bit (STATE_LOCK_BIT AND f) 0 = bit STATE_LOCK_BIT 0"
    by (simp add: Bucket_is_locked_def is_state_def)
  then show "bit f 0" by (simp only: bit_and_iff bit_STATE_LOCK_BIT) simp
next
  assume "bit f 0"
  then have "STATE_LOCK_BIT AND f = STATE_LOCK_BIT"
    by (intro bit_word_eqI) (auto simp only: bit_and_iff bit_STATE_LOCK_BIT)
  then show "Bucket_is_locked f" by (simp add: Bucket_is_locked_def is_state_def)
qed

lemma have_redirect_iff: "Bucket_have_redirect f \<longleftrightarrow> bit f 1"
proof
  assume "Bucket_have_redirect f"
  then have "bit (STATE_REDIRECT_BIT AND f) 1 = bit STATE_REDIRECT_BIT 1"
    by (simp add: Bucket_have_redirect_def is_state_def)
  then show "bit f 1" by (simp only: bit_and_iff bit_STATE_REDIRECT_BIT) simp
next
  assume "bit f 1"
  then have "STATE_REDIRECT_BIT AND f = STATE_REDIRECT_BIT"
    by (intro bit_word_eqI) (auto simp only: bit_and_iff bit_STATE_REDIRECT_BIT)
  then show "Bucket_have_redirect f" by (simp add: Bucket_have_redirect_def is_state_def)
qed

lemma bit_clear_state: "bit (clear_state f) n \<longleftrightarrow> bit f n \<and> 2 \<le> n"
  unfolding clear_state_def
  by (simp only: bit_and_iff bit_not_iff bit_STATE_MASK) (auto dest: bit_imp_le_length)

lemma bit_set_state: "bit (set_state f b) n \<longleftrightarrow> bit b n \<or> bit f n"
  unfolding set_state_def by (simp only: bit_or_iff)

lemma bit_get_state: "bit (get_state f) n \<longleftrightarrow> bit f n \<and> n < 2"
  unfolding get_state_def by (simp only: bit_and_iff bit_STATE_MASK)

lemma bit_clear_set_state:
  "bit (clear_set_state p s) n \<longleftrightarrow> (if n < 2 then bit s n else bit p n)"
  unfolding clear_set_state_def
  by (simp only: bit_xor_iff bit_clear_state bit_get_state) auto

lemma get_state_0_iff: "get_state p = 0 \<longleftrightarrow> \<not> bit p 0 \<and> \<not> bit p 1"
proof
  assume h: "get_state p = 0"
  have "bit (get_state p) 0 = bit p 0" "bit (get_state p) 1 = bit p 1"
    by (simp_all only: bit_get_state) simp_all
  with h show "\<not> bit p 0 \<and> \<not> bit p 1" by simp
next
  assume h: "\<not> bit p 0 \<and> \<not> bit p 1"
  have "n < 2 \<Longrightarrow> n = 0 \<or> n = 1" for n :: nat by arith
  with h have "\<not> (bit p n \<and> n < 2)" for n by blast
  then show "get_state p = 0"
    by (intro bit_word_eqI) (simp only: bit_get_state, simp)
qed

lemma clear_state_eq_imp: "clear_state p = p \<Longrightarrow> \<not> bit p 0 \<and> \<not> bit p 1"
proof -
  assume h: "clear_state p = p"
  have "\<not> bit (clear_state p) 0" "\<not> bit (clear_state p) 1"
    by (simp_all only: bit_clear_state) simp_all
  with h show ?thesis by simp
qed

lemma Bucket_trylock_bits:
  "bit (snd (Bucket_trylock f)) 1 = bit f 1" "bit f 0 \<Longrightarrow> bit (snd (Bucket_trylock f)) 0"
  by (auto simp: Bucket_trylock_def Let_def is_locked_iff Bucket_first_def bit_set_state bit_clear_state bit_STATE_LOCK_BIT)



lemma Bucket_lock_Some:
  assumes "Bucket_lock f i = Some f'"
  shows "f' = snd (Bucket_trylock f)"
proof (rule Bucket_lock.raw_induct [where P = "\<lambda>f i f'. f' = snd (Bucket_trylock f)", OF _ assms])
  fix L f i f'
  assume IH: "\<And>f i f'. L f i = Some f' \<Longrightarrow> f' = snd (Bucket_trylock f)"
    and step: "(case Bucket_trylock f of (ok, f') \<Rightarrow>
        if ok then Some f'
        else L f' (if Suc i = SPINPAUSES_PER_YIELD then 0 else Suc i)) = Some f'"
  show "f' = snd (Bucket_trylock f)"
  proof (cases "fst (Bucket_trylock f)")
    case True
    with step show ?thesis by (auto split: prod.splits)
  next
    case False
    then have same: "snd (Bucket_trylock f) = f"
      by (auto simp: Bucket_trylock_def Let_def split: if_splits)
    with False step have "L f (if Suc i = SPINPAUSES_PER_YIELD then 0 else Suc i) = Some f'"
      by (auto split: prod.splits)
    then show ?thesis by (rule IH)
  qed
qed


definition flags_ok :: "ptr \<Rightarrow> bool" where
  "flags_ok f = (bit f 0 \<or> \<not> bit f 1)"

lemma step_flags_ok:
  assumes "bucket_op_step True x f = Some (Inr f')" "node_arg_aligned x" "flags_ok f"
  shows "flags_ok f'"
proof (cases x)
  case Op_trylock
  with assms show ?thesis using Bucket_trylock_bits[of f] by (auto simp: flags_ok_def)
next
  case Op_lock
  with assms have "f' = snd (Bucket_trylock f)" by (auto dest: Bucket_lock_Some)
  with assms show ?thesis using Bucket_trylock_bits[of f] by (auto simp: flags_ok_def)
next
  case Op_unlock
  with assms show ?thesis
    by (auto simp: flags_ok_def Bucket_unlock_def bindE_def assert_that_def bit_clear_state split: if_splits sum.splits)
next
  case Op_redirect
  with assms show ?thesis
    by (auto simp: flags_ok_def Bucket_redirect_def bindE_def assert_that_def bit_set_state is_locked_iff split: if_splits sum.splits)
next
  case (Op_cas_first node expect)
  with assms show ?thesis
    by (auto simp: flags_ok_def Bucket_cas_first_def get_state_0_iff is_locked_iff split: if_splits)
next
  case (Op_release_assign_first node)
  with assms show ?thesis
    by (auto simp: flags_ok_def Bucket_release_assign_first_def bindE_def assert_that_def bit_clear_set_state split: if_splits sum.splits)
qed

lemma step_redirect_kept:
  assumes "bucket_op_step True x f = Some (Inr f')" "bit f 0" "bit f 1"
  shows "bit f' 0 \<and> bit f' 1"
proof (cases x)
  case Op_trylock
  with assms show ?thesis using Bucket_trylock_bits[of f] by auto
next
  case Op_lock
  with assms have "f' = snd (Bucket_trylock f)" by (auto dest: Bucket_lock_Some)
  with assms show ?thesis using Bucket_trylock_bits[of f] by auto
next
  case Op_unlock
  with assms show ?thesis
    by (auto simp: Bucket_unlock_def bindE_def assert_that_def have_redirect_iff split: if_splits sum.splits)
next
  case Op_redirect
  with assms show ?thesis
    by (auto simp: Bucket_redirect_def bindE_def assert_that_def bit_set_state is_locked_iff split: if_splits sum.splits)
next
  case (Op_cas_first node expect)
  with assms show ?thesis
    by (auto simp: Bucket_cas_first_def is_locked_iff split: if_splits)
next
  case (Op_release_assign_first node)
  with assms show ?thesis
    by (auto simp: Bucket_release_assign_first_def bindE_def assert_that_def bit_clear_set_state split: if_splits sum.splits)
qed

lemma bindR_eq_Some_Inr:
  "bindR m g = Some (Inr y) \<longleftrightarrow> (\<exists>x. m = Some (Inr x) \<and> g x = Some (Inr y))"
  by (cases m) (auto simp: bindR_def split: sum.splits)

lemma run_flags_ok:
  "run_bucket_ops True xs f = Some (Inr f') \<Longrightarrow> list_all node_arg_aligned xs \<Longrightarrow> flags_ok f
    \<Longrightarrow> flags_ok f'"
proof (induction xs arbitrary: f)
  case Nil
  then show ?case by simp
next
  case (Cons x xs)
  from Cons.prems(1) obtain g where g: "bucket_op_step True x f = Some (Inr g)"
    and r: "run_bucket_ops True xs g = Some (Inr f')"
    by (auto simp: bindR_eq_Some_Inr)
  from g Cons.prems have "flags_ok g" by (auto intro: step_flags_ok)
  with r Cons show ?case by auto
qed

lemma run_redirect_kept:
  "run_bucket_ops True xs f = Some (Inr f') \<Longrightarrow> bit f 0 \<Longrightarrow> bit f 1 \<Longrightarrow> bit f' 0 \<and> bit f' 1"
proof (induction xs arbitrary: f)
  case Nil
  then show ?case by simp
next
  case (Cons x xs)
  from Cons.prems(1) obtain g where g: "bucket_op_step True x f = Some (Inr g)"
    and r: "run_bucket_ops True xs g = Some (Inr f')"
    by (auto simp: bindR_eq_Some_Inr)
  from g Cons.prems have "bit g 0 \<and> bit g 1" by (auto dest: step_redirect_kept)
  with r Cons.IH show ?case by auto
qed

text \<open>
  C6. A bucket is constructed with both flags clear. Along any sequence of bucket operations
  that passes the assertions of the operations (redirect only on a locked bucket, unlock only
  on a locked bucket without redirect), with node addresses as the nodes handed to
  \<^verbatim>\<open>cas_first\<close>: when the REDIRECT bit is set after a first part of the sequence, the LOCK
  bit is set with it, and both bits are still set after any continuation. A redirect that
  passes its assertion returns a head with LOCK and REDIRECT set and the same node pointer.
\<close>

theorem redirect_is_terminal:
  assumes "get_state f0 = 0"
    and "list_all node_arg_aligned ops1"
    and "run_bucket_ops True ops1 f0 = Some (Inr f1)"
    and "Bucket_have_redirect f1"
    and "run_bucket_ops True ops2 f1 = Some (Inr f2)"
  shows "Bucket_is_locked f1 \<and> Bucket_have_redirect f2 \<and> Bucket_is_locked f2
    \<and> (case Bucket_redirect True g of
          Inl e \<Rightarrow> \<not> Bucket_is_locked g
        | Inr g' \<Rightarrow> Bucket_is_locked g \<and> Bucket_is_locked g' \<and> Bucket_have_redirect g'
                   \<and> Bucket_first g' = Bucket_first g)"
proof -
  from assms(1) have "flags_ok f0" by (simp add: flags_ok_def get_state_0_iff)
  with assms(2,3) have "flags_ok f1" by (auto intro: run_flags_ok)
  with assms(4) have f1: "bit f1 0" "bit f1 1" by (auto simp: flags_ok_def have_redirect_iff)
  with assms(5) have "bit f2 0 \<and> bit f2 1" by (auto dest: run_redirect_kept)
  moreover have "case Bucket_redirect True g of
          Inl e \<Rightarrow> \<not> Bucket_is_locked g
        | Inr g' \<Rightarrow> Bucket_is_locked g \<and> Bucket_is_locked g' \<and> Bucket_have_redirect g'
                   \<and> Bucket_first g' = Bucket_first g"
  proof (cases "Bucket_is_locked g")
    case True
    have "clear_state (set_state g STATE_REDIRECT_BIT) = clear_state g"
      by (rule bit_word_eqI) (auto simp only: bit_clear_state bit_set_state bit_STATE_REDIRECT_BIT)
    with True show ?thesis
      by (auto simp: Bucket_redirect_def is_locked_iff have_redirect_iff bit_set_state
          bit_STATE_REDIRECT_BIT Bucket_first_def)
  next
    case False
    then show ?thesis by (simp add: Bucket_redirect_def)
  qed
  ultimately show ?thesis using f1 by (simp add: is_locked_iff have_redirect_iff)
qed

theorem redirect_is_terminal_witness:
  "get_state 8 = 0
   \<and> list_all node_arg_aligned [Op_cas_first 16 8, Op_trylock, Op_redirect]
   \<and> run_bucket_ops True [Op_cas_first 16 8, Op_trylock, Op_redirect] 8 = Some (Inr 19)
   \<and> Bucket_have_redirect 19
   \<and> run_bucket_ops True [Op_trylock, Op_cas_first 32 19, Op_release_assign_first 64] 19 = Some (Inr 67)
   \<and> Bucket_is_locked 19 \<and> Bucket_have_redirect 67 \<and> Bucket_is_locked 67
   \<and> run_bucket_ops True [Op_unlock] 19
       = Some (Inl (Assert_failed ''Unlocking a bucket after it has reached terminal state.''))"
proof -
  have a: "get_state 8 = 0" by (simp add: get_state_def STATE_MASK_def)
  have b: "list_all node_arg_aligned [Op_cas_first 16 8, Op_trylock, Op_redirect]"
    by (simp add: get_state_def STATE_MASK_def)
  have c: "run_bucket_ops True [Op_cas_first 16 8, Op_trylock, Op_redirect] 8 = Some (Inr 19)"
    by (simp add: Bucket_cas_first_def Bucket_trylock_def Bucket_redirect_def Bucket_is_locked_def
        Bucket_first_def is_state_def set_state_def clear_state_def STATE_MASK_def
        STATE_LOCK_BIT_def STATE_REDIRECT_BIT_def)
  have d: "Bucket_have_redirect 19"
    by (simp add: Bucket_have_redirect_def is_state_def STATE_REDIRECT_BIT_def)
  have e: "run_bucket_ops True [Op_trylock, Op_cas_first 32 19, Op_release_assign_first 64] 19 = Some (Inr 67)"
    by (simp add: Bucket_cas_first_def Bucket_trylock_def Bucket_release_assign_first_def
        Bucket_is_locked_def Bucket_first_def is_state_def set_state_def clear_state_def
        clear_set_state_def get_state_def STATE_MASK_def STATE_LOCK_BIT_def STATE_REDIRECT_BIT_def)
  have f: "run_bucket_ops True [Op_unlock] 19
       = Some (Inl (Assert_failed ''Unlocking a bucket after it has reached terminal state.''))"
    by (simp add: Bucket_unlock_def Bucket_is_locked_def Bucket_have_redirect_def is_state_def
        STATE_LOCK_BIT_def STATE_REDIRECT_BIT_def)
  from redirect_is_terminal [OF a b c d e] a b c d e f show ?thesis by simp
qed

section \<open>The invisible epoch\<close>

lemma ScopedCS_fields:
  "invisible_epoch (fst (ScopedCS u c w)) = NULL"
  "resize_lock_owner (fst (ScopedCS u c w)) = resize_lock_owner c"
  "ASSERT (snd (ScopedCS u c w)) = ASSERT w"
  "events (snd (ScopedCS u c w)) = events w @ Critical_section_begin u #
     (if invisible_epoch c \<noteq> NULL then [Release_store_invisible_epoch NULL] else [])"
  by (simp_all add: ScopedCS_def Let_def log_event_def)

text \<open>
  C7. Let \<open>t\<close> hold the resize lock, with the invisible epoch null or \<open>t\<close> where assertions
  are compiled in. Then \<^verbatim>\<open>write_synchonize_on_visible_epoch(t)\<close> returns with nothing changed,
  and nothing logged, when the invisible epoch is \<open>t\<close>; otherwise it appends to the log
  exactly two entries, first the release store of \<open>t\<close> into the invisible epoch and then the
  global \<^verbatim>\<open>write_synchronize\<close>, and leaves the invisible epoch \<open>t\<close>. So the log gains a
  \<^verbatim>\<open>write_synchronize\<close> if and only if the invisible epoch differs from \<open>t\<close> at entry, and
  the store of \<open>t\<close> is directly before it. The constructor of \<^verbatim>\<open>ScopedCS\<close> begins the
  critical section and leaves the invisible epoch null, with a release store of null after
  the begin exactly when it was not null. A second call right after a first changes nothing
  and logs nothing; after a call and a \<^verbatim>\<open>ScopedCS\<close> constructed by \<open>u\<close>, the next call
  stores \<open>t\<close> and synchronizes again.
\<close>

theorem visible_epoch_synchronize:
  assumes "resize_lock_owner c = t" and "t \<noteq> NULL"
    and "ASSERT w \<longrightarrow> invisible_epoch c = NULL \<or> invisible_epoch c = t"
  shows "write_synchonize_on_visible_epoch t c w =
           (if invisible_epoch c = t then Inr (c, w)
            else Inr (c\<lparr>invisible_epoch := t\<rparr>,
                      w\<lparr>events := events w @ [Release_store_invisible_epoch t, Write_synchronize]\<rparr>))
    \<and> (\<forall>c' w'. write_synchonize_on_visible_epoch t c w = Inr (c', w') \<longrightarrow>
          (Write_synchronize \<in> set (drop (length (events w)) (events w')) \<longleftrightarrow> invisible_epoch c \<noteq> t))
    \<and> ScopedCS u c w =
         (c\<lparr>invisible_epoch := NULL\<rparr>,
          w\<lparr>events := events w @ Critical_section_begin u #
             (if invisible_epoch c \<noteq> NULL then [Release_store_invisible_epoch NULL] else [])\<rparr>)
    \<and> bindE (write_synchonize_on_visible_epoch t c w)
           (\<lambda>(c1, w1). write_synchonize_on_visible_epoch t c1 w1)
         = write_synchonize_on_visible_epoch t c w
    \<and> bindE (write_synchonize_on_visible_epoch t c w)
           (\<lambda>(c1, w1). case ScopedCS u c1 w1 of (c2, w2) \<Rightarrow> write_synchonize_on_visible_epoch t c2 w2)
         = bindE (write_synchonize_on_visible_epoch t c w)
             (\<lambda>(c1, w1). Inr (c1, w1\<lparr>events := events w1 @
                [Critical_section_begin u, Release_store_invisible_epoch NULL,
                 Release_store_invisible_epoch t, Write_synchronize]\<rparr>))"
proof -
  have one: "write_synchonize_on_visible_epoch t c w =
           (if invisible_epoch c = t then Inr (c, w)
            else Inr (c\<lparr>invisible_epoch := t\<rparr>,
                      w\<lparr>events := events w @ [Release_store_invisible_epoch t, Write_synchronize]\<rparr>))"
    using assms
    by (auto simp: write_synchonize_on_visible_epoch_def assert_that_def Let_def log_event_def)
  have iff: "\<forall>c' w'. write_synchonize_on_visible_epoch t c w = Inr (c', w') \<longrightarrow>
          (Write_synchronize \<in> set (drop (length (events w)) (events w')) \<longleftrightarrow> invisible_epoch c \<noteq> t)"
    unfolding one by auto
  have two: "ScopedCS u c w =
         (c\<lparr>invisible_epoch := NULL\<rparr>,
          w\<lparr>events := events w @ Critical_section_begin u #
             (if invisible_epoch c \<noteq> NULL then [Release_store_invisible_epoch NULL] else [])\<rparr>)"
    by (simp add: ScopedCS_def Let_def log_event_def)
  have three: "bindE (write_synchonize_on_visible_epoch t c w)
           (\<lambda>(c1, w1). write_synchonize_on_visible_epoch t c1 w1)
         = write_synchonize_on_visible_epoch t c w"
    using assms(1) unfolding one
    by (simp add: write_synchonize_on_visible_epoch_def)
  have four: "bindE (write_synchonize_on_visible_epoch t c w)
           (\<lambda>(c1, w1). case ScopedCS u c1 w1 of (c2, w2) \<Rightarrow> write_synchonize_on_visible_epoch t c2 w2)
         = bindE (write_synchonize_on_visible_epoch t c w)
             (\<lambda>(c1, w1). Inr (c1, w1\<lparr>events := events w1 @
                [Critical_section_begin u, Release_store_invisible_epoch NULL,
                 Release_store_invisible_epoch t, Write_synchronize]\<rparr>))"
    using assms(1,2) unfolding one
    by (auto simp: write_synchonize_on_visible_epoch_def ScopedCS_def Let_def log_event_def
        assert_that_def)
  from one iff two three four show ?thesis by (intro conjI)
qed

definition epoch_cht :: cht where
  "epoch_cht = \<lparr>table = 64, new_table = NULL, log2_start_size = 5, log2_size_limit = 7,
     grow_hint = 4, size_limit_reached = False, resize_lock = True, resize_lock_owner = 1000,
     invisible_epoch = NULL\<rparr>"

definition epoch_world :: "nat world" where
  "epoch_world = \<lparr>ASSERT = True, tables = (\<lambda>_. InternalTable 5), table_heap = [],
     node_next = (\<lambda>_. NULL), node_value = (\<lambda>_. 0), events = []\<rparr>"

theorem visible_epoch_synchronize_witness:
  "resize_lock_owner epoch_cht = 1000 \<and> (1000 :: thread) \<noteq> NULL
   \<and> invisible_epoch epoch_cht = NULL
   \<and> write_synchonize_on_visible_epoch 1000 epoch_cht epoch_world
       = Inr (epoch_cht\<lparr>invisible_epoch := 1000\<rparr>,
              epoch_world\<lparr>events := [Release_store_invisible_epoch 1000, Write_synchronize]\<rparr>)
   \<and> bindE (write_synchonize_on_visible_epoch 1000 epoch_cht epoch_world)
        (\<lambda>(c1, w1). write_synchonize_on_visible_epoch 1000 c1 w1)
       = Inr (epoch_cht\<lparr>invisible_epoch := 1000\<rparr>,
              epoch_world\<lparr>events := [Release_store_invisible_epoch 1000, Write_synchronize]\<rparr>)
   \<and> ScopedCS 2000 (epoch_cht\<lparr>invisible_epoch := 1000\<rparr>) epoch_world
       = (epoch_cht,
          epoch_world\<lparr>events := [Critical_section_begin 2000, Release_store_invisible_epoch NULL]\<rparr>)
   \<and> bindE (write_synchonize_on_visible_epoch 1000 epoch_cht epoch_world)
        (\<lambda>(c1, w1). case ScopedCS 2000 c1 w1 of (c2, w2) \<Rightarrow> write_synchonize_on_visible_epoch 1000 c2 w2)
       = Inr (epoch_cht\<lparr>invisible_epoch := 1000\<rparr>,
              epoch_world\<lparr>events :=
                [Release_store_invisible_epoch 1000, Write_synchronize,
                 Critical_section_begin 2000, Release_store_invisible_epoch NULL,
                 Release_store_invisible_epoch 1000, Write_synchronize]\<rparr>)"
proof -
  have a: "resize_lock_owner epoch_cht = 1000" by (simp add: epoch_cht_def)
  have b: "(1000 :: thread) \<noteq> NULL" by simp
  have e: "invisible_epoch epoch_cht = NULL" by (simp add: epoch_cht_def)
  then have d: "ASSERT epoch_world \<longrightarrow> invisible_epoch epoch_cht = NULL \<or> invisible_epoch epoch_cht = 1000"
    by simp
  have ev: "events epoch_world = []" by (simp add: epoch_world_def)
  note T = visible_epoch_synchronize [OF a b d, of 2000]
  have r1: "write_synchonize_on_visible_epoch 1000 epoch_cht epoch_world
       = Inr (epoch_cht\<lparr>invisible_epoch := 1000\<rparr>,
              epoch_world\<lparr>events := [Release_store_invisible_epoch 1000, Write_synchronize]\<rparr>)"
    using T [THEN conjunct1] e by (simp add: ev)
  have r3: "bindE (write_synchonize_on_visible_epoch 1000 epoch_cht epoch_world)
        (\<lambda>(c1, w1). write_synchonize_on_visible_epoch 1000 c1 w1)
       = Inr (epoch_cht\<lparr>invisible_epoch := 1000\<rparr>,
              epoch_world\<lparr>events := [Release_store_invisible_epoch 1000, Write_synchronize]\<rparr>)"
    by (rule trans [OF T [THEN conjunct2, THEN conjunct2, THEN conjunct2, THEN conjunct1] r1])
  have sc: "ScopedCS 2000 (epoch_cht\<lparr>invisible_epoch := 1000\<rparr>) epoch_world
       = (epoch_cht,
          epoch_world\<lparr>events := [Critical_section_begin 2000, Release_store_invisible_epoch NULL]\<rparr>)"
    by (simp add: ScopedCS_def Let_def log_event_def epoch_cht_def ev)
  have "bindE (write_synchonize_on_visible_epoch 1000 epoch_cht epoch_world)
          (\<lambda>(c1, w1). Inr (c1, w1\<lparr>events := events w1 @
                [Critical_section_begin 2000, Release_store_invisible_epoch NULL,
                 Release_store_invisible_epoch 1000, Write_synchronize]\<rparr>))
       = Inr (epoch_cht\<lparr>invisible_epoch := 1000\<rparr>,
              epoch_world\<lparr>events :=
                [Release_store_invisible_epoch 1000, Write_synchronize,
                 Critical_section_begin 2000, Release_store_invisible_epoch NULL,
                 Release_store_invisible_epoch 1000, Write_synchronize]\<rparr>)"
    unfolding r1 by simp
  then have r4: "bindE (write_synchonize_on_visible_epoch 1000 epoch_cht epoch_world)
        (\<lambda>(c1, w1). case ScopedCS 2000 c1 w1 of (c2, w2) \<Rightarrow> write_synchonize_on_visible_epoch 1000 c2 w2)
       = Inr (epoch_cht\<lparr>invisible_epoch := 1000\<rparr>,
              epoch_world\<lparr>events :=
                [Release_store_invisible_epoch 1000, Write_synchronize,
                 Critical_section_begin 2000, Release_store_invisible_epoch NULL,
                 Release_store_invisible_epoch 1000, Write_synchronize]\<rparr>)"
    by (rule trans [OF T [THEN conjunct2, THEN conjunct2, THEN conjunct2, THEN conjunct2]])
  from a b e r1 r3 sc r4 show ?thesis by (intro conjI)
qed

section \<open>The poison check of the epilogs\<close>

lemma assert_poison_loop_iff:
  "assert_poison_loop w old_table i = Inr () \<longleftrightarrow>
     (\<forall>k. i + 2 * k < tsize (tables w old_table) \<longrightarrow> first w (old_table, i + 2 * k) = POISON_PTR)"
proof (induction w old_table i rule: assert_poison_loop.induct)
  case (1 w old_table i)
  show ?case
  proof (cases "i < tsize (tables w old_table)")
    case False
    then show ?thesis by (subst assert_poison_loop.simps) simp
  next
    case True
    show ?thesis
    proof (cases "first w (old_table, i) = POISON_PTR")
      case False
      with True have "assert_poison_loop w old_table i \<noteq> Inr ()"
        by (subst assert_poison_loop.simps) simp
      moreover from True False have "\<not> (\<forall>k. i + 2 * k < tsize (tables w old_table)
          \<longrightarrow> first w (old_table, i + 2 * k) = POISON_PTR)"
        by (auto intro!: exI [of _ 0])
      ultimately show ?thesis by blast
    next
      case p: True
      have "assert_poison_loop w old_table i = assert_poison_loop w old_table (Suc (Suc i))"
        using True p by (subst assert_poison_loop.simps) simp
      also have "\<dots> = Inr () \<longleftrightarrow> (\<forall>k. Suc (Suc i) + 2 * k < tsize (tables w old_table)
          \<longrightarrow> first w (old_table, Suc (Suc i) + 2 * k) = POISON_PTR)"
        using "1.IH" [OF True p] .
      also have "\<dots> \<longleftrightarrow> (\<forall>k. i + 2 * k < tsize (tables w old_table)
          \<longrightarrow> first w (old_table, i + 2 * k) = POISON_PTR)" (is "?L \<longleftrightarrow> ?R")
      proof
        assume l: ?L
        show ?R
        proof (intro allI impI)
          fix k assume k: "i + 2 * k < tsize (tables w old_table)"
          show "first w (old_table, i + 2 * k) = POISON_PTR"
          proof (cases k)
            case 0 with p show ?thesis by simp
          next
            case (Suc m)
            with l [rule_format, of m] k show ?thesis by simp
          qed
        qed
      next
        assume r: ?R
        show ?L
        proof (intro allI impI)
          fix k assume "Suc (Suc i) + 2 * k < tsize (tables w old_table)"
          with r [rule_format, of "Suc k"] show "first w (old_table, Suc (Suc i) + 2 * k) = POISON_PTR"
            by simp
        qed
      qed
      finally show ?thesis .
    qed
  qed
qed

lemma assert_poison_loop_even:
  "assert_poison_loop w old_table 0 = Inr () \<longleftrightarrow>
     (\<forall>i < tsize (tables w old_table). even i \<longrightarrow> first w (old_table, i) = POISON_PTR)"
  unfolding assert_poison_loop_iff
  by (auto elim!: evenE)

lemma first_log_event [simp]: "first (log_event e w) b = first w b"
  by (simp add: first_def first_raw_def log_event_def)

lemma tables_log_event [simp]: "tables (log_event e w) = tables w"
  by (simp add: log_event_def)

lemma ASSERT_log_event [simp]: "ASSERT (log_event e w) = ASSERT w"
  by (simp add: log_event_def)

text \<open>
  C8. The assertion loop of the epilogs passes exactly when every even-indexed bucket of the
  retired table holds the poison pattern: the buckets with an odd index are never examined.
  In a build with \<^verbatim>\<open>ASSERT\<close>, called by the holder of the resize lock, each epilog returns
  without a failed assertion under that same condition.
\<close>

theorem epilog_checks_every_other_bucket:
  assumes "ASSERT w" and "resize_lock_owner c = thread"
  shows "(assert_poison_loop w old_table 0 = Inr ()) =
           (\<forall>i < tsize (tables w old_table). even i \<longrightarrow> first w (old_table, i) = POISON_PTR)
    \<and> (\<not> isl (internal_grow_epilog thread c w)) =
           (\<forall>i < tsize (tables w (table c)). even i \<longrightarrow> first w (table c, i) = POISON_PTR)
    \<and> (\<not> isl (internal_shrink_epilog thread c w)) =
           (\<forall>i < tsize (tables w (table c)). even i \<longrightarrow> first w (table c, i) = POISON_PTR)"
proof -
  let ?w1 = "log_event Write_synchronize w"
  have g: "(\<not> isl (internal_grow_epilog thread c w)) = (assert_poison_loop ?w1 (table c) 0 = Inr ())"
    using assms
    by (cases "assert_poison_loop ?w1 (table c) 0")
       (auto simp: internal_grow_epilog_def set_table_from_new_def Let_def unlock_resize_lock_def)
  have s: "(\<not> isl (internal_shrink_epilog thread c w)) = (assert_poison_loop ?w1 (table c) 0 = Inr ())"
    using assms
    by (cases "assert_poison_loop ?w1 (table c) 0")
       (auto simp: internal_shrink_epilog_def set_table_from_new_def Let_def unlock_resize_lock_def)
  show ?thesis unfolding g s by (simp add: assert_poison_loop_even)
qed

definition poison_world :: "nat world" where
  "poison_world = \<lparr>ASSERT = True,
     tables = (\<lambda>_. (InternalTable 5)\<lparr>buckets := concat (replicate 16 [POISON_PTR, NULL])\<rparr>),
     table_heap = [], node_next = (\<lambda>_. NULL), node_value = (\<lambda>_. 0), events = []\<rparr>"

definition poison_cht :: cht where
  "poison_cht = \<lparr>table = 64, new_table = 128, log2_start_size = 5, log2_size_limit = 7,
     grow_hint = 4, size_limit_reached = False, resize_lock = True, resize_lock_owner = 1000,
     invisible_epoch = NULL\<rparr>"

theorem epilog_checks_every_other_bucket_witness:
  "ASSERT poison_world \<and> resize_lock_owner poison_cht = 1000
   \<and> tsize (tables poison_world 64) = 32
   \<and> first poison_world (64, 1) = NULL
   \<and> first poison_world (64, 2) = POISON_PTR
   \<and> assert_poison_loop poison_world 64 0 = Inr ()
   \<and> \<not> isl (internal_grow_epilog 1000 poison_cht poison_world)
   \<and> \<not> isl (internal_shrink_epilog 1000 poison_cht poison_world)"
proof -
  have a: "ASSERT poison_world" by (simp add: poison_world_def)
  have b: "resize_lock_owner poison_cht = 1000" by (simp add: poison_cht_def)
  have t: "table poison_cht = 64" by (simp add: poison_cht_def)
  have n: "tsize (tables poison_world 64) = 32" by (simp add: poison_world_def InternalTable_def)
  have bs: "buckets (tables poison_world 64) = concat (replicate 16 [POISON_PTR, NULL])"
    by (simp add: poison_world_def)
  have ev: "first poison_world (64, i) = POISON_PTR" if "i < 32" "even i" for i
  proof -
    from that obtain k where k: "i = 2 * k" "k < 16" by (auto elim!: evenE)
    have "concat (replicate m [POISON_PTR, NULL]) ! (2 * k) = POISON_PTR" if "k < m" for m
      using that
    proof (induction m arbitrary: k)
      case 0 then show ?case by simp
    next
      case (Suc m) then show ?case by (cases k) (simp_all add: nth_Cons')
    qed
    with k have "concat (replicate 16 [POISON_PTR, NULL]) ! i = POISON_PTR" by simp
    moreover have "clear_state POISON_PTR = POISON_PTR"
      by (simp add: clear_state_def POISON_PTR_def STATE_MASK_def)
    ultimately show ?thesis by (simp add: first_def first_raw_def bs Bucket_first_def)
  qed
  have o: "first poison_world (64, 1) = NULL"
    by (simp add: first_def first_raw_def bs Bucket_first_def clear_state_def eval_nat_numeral)
  note T = epilog_checks_every_other_bucket [OF a b, of 64]
  have l: "assert_poison_loop poison_world 64 0 = Inr ()"
    using T [THEN conjunct1] ev n by simp
  have g: "\<not> isl (internal_grow_epilog 1000 poison_cht poison_world)"
    using T [THEN conjunct2, THEN conjunct1] ev n t by simp
  have s: "\<not> isl (internal_shrink_epilog 1000 poison_cht poison_world)"
    using T [THEN conjunct2, THEN conjunct2] ev n t by simp
  from a b n o ev [of 2] l g s show ?thesis by simp
qed

section \<open>Shrink refuses at the start size\<close>

text \<open>
  C5. Let the caller be a thread that does not hold the resize lock. When the table's
  \<^verbatim>\<open>_log2_size\<close> equals \<^verbatim>\<open>_log2_start_size\<close>, or is at most the requested size (the start
  size for a request of 0), \<^verbatim>\<open>shrink\<close> returns false, and the memory (tables, buckets, nodes
  and the log of calls) is the one before the call; of the table object only the invisible
  epoch may have been reset, when the resize lock was taken and released.
\<close>

theorem shrink_refuses:
  assumes "log2_size (tables w (table c)) = log2_start_size c
           \<or> log2_size (tables w (table c)) \<le> (if n = 0 then log2_start_size c else n)"
    and "thread \<noteq> NULL" and "resize_lock_owner c \<noteq> thread"
  shows "shrink thread n c w =
           Some (Inr (False,
                      (if \<not> resize_lock c \<and> resize_lock_owner c = NULL
                       then c\<lparr>invisible_epoch := NULL\<rparr> else c),
                      w))"
  using assms
  by (auto simp: shrink_def internal_shrink_def internal_shrink_prolog_def try_resize_lock_def
      unlock_resize_lock_def Let_def assert_that_def)

definition floor_cht :: cht where
  "floor_cht = \<lparr>table = 64, new_table = NULL, log2_start_size = 10, log2_size_limit = 20,
     grow_hint = 4, size_limit_reached = False, resize_lock = False, resize_lock_owner = NULL,
     invisible_epoch = NULL\<rparr>"

definition floor_world :: "nat world" where
  "floor_world = \<lparr>ASSERT = True, tables = (\<lambda>_. InternalTable 10), table_heap = [128],
     node_next = (\<lambda>_. NULL), node_value = (\<lambda>_. 0), events = []\<rparr>"

theorem shrink_refuses_witness:
  "log2_size (tables floor_world (table floor_cht)) = log2_start_size floor_cht
   \<and> (1000 :: thread) \<noteq> NULL \<and> resize_lock_owner floor_cht \<noteq> 1000
   \<and> shrink 1000 9 floor_cht floor_world = Some (Inr (False, floor_cht, floor_world))"
proof -
  have a: "log2_size (tables floor_world (table floor_cht)) = log2_start_size floor_cht"
    by (simp add: floor_world_def floor_cht_def InternalTable_def)
  then have a': "log2_size (tables floor_world (table floor_cht)) = log2_start_size floor_cht
           \<or> log2_size (tables floor_world (table floor_cht)) \<le> (if (9::nat) = 0 then log2_start_size floor_cht else 9)"
    by simp
  have b: "(1000 :: thread) \<noteq> NULL" by simp
  have d: "resize_lock_owner floor_cht \<noteq> 1000" by (simp add: floor_cht_def)
  have e: "floor_cht\<lparr>invisible_epoch := NULL\<rparr> = floor_cht" by (simp add: floor_cht_def)
  from shrink_refuses [OF a' b d] a b d e show ?thesis by (simp add: floor_cht_def)
qed

section \<open>Grow doubles the table once\<close>

lemma bindE_eq_Inr: "bindE m g = Inr y \<longleftrightarrow> (\<exists>x. m = Inr x \<and> g x = Inr y)"
  by (cases m) simp_all

definition shape_kept :: "cht \<Rightarrow> 'v world \<Rightarrow> cht \<Rightarrow> 'v world \<Rightarrow> bool" where
  "shape_kept c w c' w' \<longleftrightarrow>
     table c' = table c \<and> new_table c' = new_table c \<and> log2_size_limit c' = log2_size_limit c
     \<and> (\<lambda>t. log2_size (tables w' t)) = (\<lambda>t. log2_size (tables w t))"

lemma shape_kept_refl [simp]: "shape_kept c w c w"
  by (simp add: shape_kept_def)

lemma shape_kept_trans: "shape_kept c w c1 w1 \<Longrightarrow> shape_kept c1 w1 c2 w2 \<Longrightarrow> shape_kept c w c2 w2"
  by (simp add: shape_kept_def)

lemma log2_size_set_first_raw [simp]:
  "log2_size (tables (set_first_raw w b v) t) = log2_size (tables w t)"
  by (simp add: set_first_raw_def)

lemma log2_size_store_slot [simp]:
  "log2_size (tables (store_slot w s v) t) = log2_size (tables w t)"
  by (cases s) simp_all

lemma shape_release_assign:
  "release_assign_node_ptr w b dst node = Inr w' \<Longrightarrow> shape_kept c w c w'"
  by (auto simp: release_assign_node_ptr_def bindE_eq_Inr shape_kept_def)

lemma shape_write_synchonize:
  "write_synchonize_on_visible_epoch thread c w = Inr (c', w') \<Longrightarrow> shape_kept c w c' w'"
  by (auto simp: write_synchonize_on_visible_epoch_def bindE_eq_Inr shape_kept_def split: if_splits)

lemma shape_destroy_node [simp]: "shape_kept c w c (destroy_node w n)"
  by (simp add: shape_kept_def destroy_node_def)

lemma shape_log_event [simp]: "shape_kept c w c (log_event e w)"
  by (simp add: shape_kept_def)

lemma shape_set_first_raw [simp]: "shape_kept c w c (set_first_raw w b v)"
  by (simp add: shape_kept_def)

lemma shape_lock: "lock w b = Some (Inr w') \<Longrightarrow> shape_kept c w c w'"
  by (auto simp: lock_def)

lemma shape_unlock: "unlock w b = Inr w' \<Longrightarrow> shape_kept c w c w'"
  by (auto simp: unlock_def bindE_eq_Inr)

lemma shape_redirect: "redirect w b = Inr w' \<Longrightarrow> shape_kept c w c w'"
  by (auto simp: redirect_def bindE_eq_Inr)

lemma shape_unzip_step:
  assumes "unzip_step thread gh new_t ei oi c w aux e_p o_p = Inr (c1, w1, aux', e', o')"
  shows "shape_kept c w c1 w1"
  using assms unfolding unzip_step_def
  by (auto simp: bindE_eq_Inr Let_def shape_kept_def release_assign_node_ptr_def
      write_synchonize_on_visible_epoch_def destroy_node_def
      split: if_splits prod.splits)

lemma shape_unzip_loop:
  assumes "unzip_loop thread gh new_t ei oi c w aux e_p o_p = Some (Inr (c', w'))"
  shows "shape_kept c w c' w'"
proof -
  have "\<forall>c'' w''. (Inr (c', w') :: error + cht \<times> 'a world) = Inr (c'', w'') \<longrightarrow> shape_kept c w c'' w''"
    apply (rule unzip_loop.raw_induct [OF _ assms, where P = "\<lambda>thread gh new_t ei oi c w aux e_p o_p r.
        \<forall>c' w'. r = Inr (c', w') \<longrightarrow> shape_kept c w c' w'"])
    subgoal premises prems for L thread gh new_t ei oi c w aux e_p o_p r
      using prems(2)
      by (auto simp: bindR_eq_Some_Inr split: if_splits
          dest!: prems(1) shape_unzip_step simp: shape_kept_def)
    done
  then show ?thesis by simp
qed

lemma shape_unzip_bucket:
  "unzip_bucket thread gh old_t new_t ei oi c w = Some (Inr (b, c', w')) \<Longrightarrow> shape_kept c w c' w'"
  by (auto simp: unzip_bucket_def Let_def bindR_eq_Some_Inr split: if_splits dest: shape_unzip_loop)

lemma shape_internal_grow_bucket:
  assumes "internal_grow_bucket thread gh ei c w = Some (Inr (c', w'))"
  shows "shape_kept c w c' w'"
proof -
  from assms obtain w1 w4 ne w5 w7 w8 where
    "lock w (table c, ei) = Some (Inr w1)"
    and "redirect (set_first_raw (set_first_raw w1 (new_table c, ei) (first_raw w1 (table c, ei)))
            (new_table c, ei + tsize (tables w1 (table c)))
            (first_raw (set_first_raw w1 (new_table c, ei) (first_raw w1 (table c, ei))) (table c, ei)))
          (table c, ei) = Inr w4"
    and "unzip_bucket thread gh (table c) (new_table c) ei (ei + tsize (tables w1 (table c))) c w4
          = Some (Inr (ne, c', w5))"
    and "unlock (if \<not> ne \<and> ASSERT w5 then log_event Write_synchronize w5 else w5) (new_table c', ei) = Inr w7"
    and "unlock w7 (new_table c', ei + tsize (tables w1 (table c))) = Inr w8"
    and "(if ASSERT w8 then release_assign_node_ptr w8 (table c, ei) (First_ptr (table c', ei)) POISON_PTR
          else Inr w8) = Inr w'"
    unfolding internal_grow_bucket_def Let_def
    by (auto simp: bindR_eq_Some_Inr)
  then show ?thesis
    by (auto split: if_splits
        dest!: shape_lock [where c = c] shape_redirect [where c = c] shape_unzip_bucket
          shape_unlock [where c = c'] shape_release_assign [where c = c']
        simp: shape_kept_def)
qed

lemma shape_internal_grow_range_loop:
  assumes "internal_grow_range_loop thread gh i stop c w = Some (Inr (c', w'))"
  shows "shape_kept c w c' w'"
proof -
  have "\<forall>c'' w''. (Inr (c', w') :: error + cht \<times> 'a world) = Inr (c'', w'') \<longrightarrow> shape_kept c w c'' w''"
    apply (rule internal_grow_range_loop.raw_induct [OF _ assms, where P = "\<lambda>thread gh i stop c w r.
        \<forall>c' w'. r = Inr (c', w') \<longrightarrow> shape_kept c w c' w'"])
    subgoal premises prems for L thread gh i stop c w r
      using prems(2)
      by (auto simp: bindR_eq_Some_Inr split: if_splits
          dest!: prems(1) shape_internal_grow_bucket simp: shape_kept_def)
    done
  then show ?thesis by simp
qed

text \<open>
  C3, as amended. A call \<^verbatim>\<open>grow(thread, 0)\<close> that returns true has published a table whose
  \<^verbatim>\<open>_log2_size\<close> is one more than before the call and at most \<^verbatim>\<open>_log2_size_limit\<close>.
\<close>

theorem grow_zero_doubles_once:
  assumes "grow thread gh 0 c w = Some (Inr (True, c', w'))"
  shows "log2_size (tables w' (table c')) = log2_size (tables w (table c)) + 1
    \<and> log2_size (tables w' (table c')) \<le> log2_size_limit c
    \<and> log2_size_limit c' = log2_size_limit c"
proof -
  from assms obtain c1 w1 c2 w2 where
    pro: "internal_grow_prolog thread (log2_size_limit c) c w = Inr (True, c1, w1)"
    and rng: "internal_grow_range thread gh 0 (tsize (tables w1 (table c1))) c1 w1 = Some (Inr (c2, w2))"
    and epi: "internal_grow_epilog thread c2 w2 = Inr (c', w')"
    unfolding grow_def internal_grow_def Let_def
    by (auto simp: bindR_eq_Some_Inr split: if_splits)
  let ?l = "log2_size (tables w (table c))"
  from pro have p: "table c1 = table c" "log2_size (tables w1 (new_table c1)) = ?l + 1"
    "?l < log2_size_limit c" "log2_size_limit c1 = log2_size_limit c"
    unfolding internal_grow_prolog_def
    by (auto simp: bindE_eq_Inr try_resize_lock_def unlock_resize_lock_def new_InternalTable_def
        InternalTable_def Let_def split: if_splits)
  from rng have "shape_kept c1 w1 c2 w2"
    by (auto simp: internal_grow_range_def bindR_eq_Some_Inr dest: shape_internal_grow_range_loop)
  then have k: "new_table c2 = new_table c1" "log2_size_limit c2 = log2_size_limit c1"
    "log2_size (tables w2 (new_table c1)) = log2_size (tables w1 (new_table c1))"
    by (auto simp: shape_kept_def dest: fun_cong)
  from epi have e: "table c' = new_table c2" "log2_size_limit c' = log2_size_limit c2"
    "tables w' = tables w2"
    unfolding internal_grow_epilog_def
    by (auto simp: bindE_eq_Inr set_table_from_new_def unlock_resize_lock_def Let_def
        delete_table_def split: if_splits)
  from p k e show ?thesis by simp
qed

definition grow_cht :: cht where
  "grow_cht = \<lparr>table = 64, new_table = NULL, log2_start_size = 5, log2_size_limit = 7,
     grow_hint = 4, size_limit_reached = False, resize_lock = False, resize_lock_owner = NULL,
     invisible_epoch = NULL\<rparr>"

definition grow_world :: "nat world" where
  "grow_world = \<lparr>ASSERT = False, tables = (\<lambda>_. InternalTable 5), table_heap = [128],
     node_next = (\<lambda>_. NULL), node_value = (\<lambda>_. 0), events = []\<rparr>"

definition nat_hash :: "nat \<Rightarrow> 64 word \<times> bool" where
  "nat_hash v = (of_nat v, False)"

lemma grow_empty_table:
  "map_option (map_sum id (\<lambda>(ok, c', w'). (ok, log2_size (tables w' (table c')), log2_size_limit c')))
     (grow 1000 nat_hash 0 grow_cht grow_world) = Some (Inr (True, 6, 7))"
  by (simp add: grow_def internal_grow_def internal_grow_prolog_def internal_grow_epilog_def
       internal_grow_range_def internal_grow_range_loop.simps internal_grow_bucket_def unzip_bucket_def
       grow_cht_def grow_world_def is_max_size_reached_def try_resize_lock_def unlock_resize_lock_def
       new_InternalTable_def InternalTable_def set_table_from_new_def delete_table_def log_event_def
       lock_def Bucket_lock.simps Bucket_trylock_def Bucket_is_locked_def Bucket_first_def
       Bucket_have_redirect_def is_state_def set_state_def clear_state_def STATE_MASK_def
       STATE_LOCK_BIT_def STATE_REDIRECT_BIT_def first_def first_raw_def set_first_raw_def
       redirect_def unlock_def Bucket_redirect_def Bucket_unlock_def Let_def)

theorem grow_zero_doubles_once_witness:
  "\<exists>c' w'. grow 1000 nat_hash 0 grow_cht grow_world = Some (Inr (True, c', w'))
     \<and> log2_size (tables w' (table c')) = log2_size (tables grow_world (table grow_cht)) + 1
     \<and> log2_size (tables w' (table c')) \<le> log2_size_limit grow_cht
     \<and> log2_size_limit c' = log2_size_limit grow_cht"
proof -
  from grow_empty_table obtain c' w' where
    g: "grow 1000 nat_hash 0 grow_cht grow_world = Some (Inr (True, c', w'))"
    by (cases "grow 1000 nat_hash 0 grow_cht grow_world")
       (auto simp: map_sum_def split: sum.splits)
  from grow_zero_doubles_once [OF g] g show ?thesis by blast
qed

text \<open>
  The claim as stated fails: on an empty table of 32 buckets with the limit at \<open>2^7\<close>,
  \<^verbatim>\<open>grow(thread, 0)\<close> returns true and publishes a table of \<open>2^6\<close> buckets.
\<close>

theorem grow_zero_not_to_limit:
  "\<not> (case grow 1000 nat_hash 0 grow_cht grow_world of
        Some (Inr (ok, c', w')) \<Rightarrow> \<not> ok \<or> log2_size (tables w' (table c')) = log2_size_limit c'
      | _ \<Rightarrow> True)"
  using grow_empty_table
  by (cases "grow 1000 nat_hash 0 grow_cht grow_world")
     (auto simp: map_sum_def split: sum.splits)

section \<open>Chains of nodes\<close>

text \<open>
  The nodes reached from a pointer by following \<^verbatim>\<open>_next\<close> up to \<^verbatim>\<open>NULL\<close>, as a list. A
  chain that reaches \<^verbatim>\<open>NULL\<close> has no node twice.
\<close>

fun chain :: "(ptr \<Rightarrow> ptr) \<Rightarrow> ptr \<Rightarrow> ptr list \<Rightarrow> bool" where
  "chain nxt p [] = (p = NULL)"
| "chain nxt p (n # ns) = (p = n \<and> n \<noteq> NULL \<and> chain nxt (nxt n) ns)"

section \<open>get_node\<close>

definition lookup_matches :: "'v lookup_func \<Rightarrow> 'v world \<Rightarrow> ptr \<Rightarrow> bool" where
  "lookup_matches lookup_f w n = fst (equals lookup_f (node_value w n) False)"

definition lookup_is_dead :: "'v lookup_func \<Rightarrow> 'v world \<Rightarrow> ptr \<Rightarrow> bool" where
  "lookup_is_dead lookup_f w n = snd (equals lookup_f (node_value w n) False)"

lemma get_node_loop_chain:
  assumes "chain (node_next w) p ns"
  shows "get_node_loop w lookup_f p have_dead k =
     Some ((case find (lookup_matches lookup_f w) ns of None \<Rightarrow> NULL | Some n \<Rightarrow> n),
           have_dead \<or> list_ex (lookup_is_dead lookup_f w)
                          (takeWhile (\<lambda>n. \<not> lookup_matches lookup_f w n) ns),
           k + min (length ns) (Suc (length (takeWhile (\<lambda>n. \<not> lookup_matches lookup_f w n) ns))))"
  using assms
proof (induction ns arbitrary: p have_dead k)
  case Nil
  then show ?case by (subst get_node_loop.simps) simp
next
  case (Cons n ns)
  from Cons.prems have p: "p = n" "n \<noteq> NULL" and rest: "chain (node_next w) (node_next w n) ns"
    by simp_all
  obtain eq is_dead where e: "equals lookup_f (node_value w n) False = (eq, is_dead)"
    by (cases "equals lookup_f (node_value w n) False")
  then have m: "lookup_matches lookup_f w n = eq" "lookup_is_dead lookup_f w n = is_dead"
    by (simp_all add: lookup_matches_def lookup_is_dead_def)
  show ?case
  proof (cases eq)
    case True
    with p e m show ?thesis
      by (subst get_node_loop.simps) simp
  next
    case False
    with p e m show ?thesis
      by (subst get_node_loop.simps) (auto simp: Cons.IH [OF rest])
  qed
qed

text \<open>
  C9. For a bucket whose chain is the list \<open>ns\<close>, \<^verbatim>\<open>get_node\<close> returns the first node of
  \<open>ns\<close> on which \<^verbatim>\<open>equals\<close> returns true, or \<^verbatim>\<open>NULL\<close> when there is none; \<^verbatim>\<open>*loops\<close>,
  when given, is the number of nodes examined, the match included; \<^verbatim>\<open>*have_dead\<close> is its
  value at the call, or true when a node strictly before the first match reported
  \<^verbatim>\<open>is_dead\<close>: what \<^verbatim>\<open>equals\<close> reports for the matching node itself is not recorded.
\<close>

theorem get_node_first_match:
  assumes "chain (node_next w) (first w bucket) ns"
  shows "get_node w bucket lookup_f have_dead loops =
     Some ((case find (lookup_matches lookup_f w) ns of None \<Rightarrow> NULL | Some n \<Rightarrow> n),
           have_dead \<or> list_ex (lookup_is_dead lookup_f w)
                          (takeWhile (\<lambda>n. \<not> lookup_matches lookup_f w n) ns),
           (case loops of None \<Rightarrow> None
            | Some _ \<Rightarrow> Some (min (length ns)
                (Suc (length (takeWhile (\<lambda>n. \<not> lookup_matches lookup_f w n) ns))))))"
  unfolding get_node_def get_node_loop_chain [OF assms]
  by (cases loops) simp_all

text \<open>
  A bucket with the nodes 16, 32, 48 holding the values 1, 2, 3; the lookup is for the value
  2 and reports every value as dead.
\<close>

definition three_world :: "nat world" where
  "three_world = \<lparr>ASSERT = True,
     tables = (\<lambda>_. (InternalTable 5)\<lparr>buckets := 16 # replicate 31 NULL\<rparr>),
     table_heap = [],
     node_next = (\<lambda>n. if n = 16 then 32 else if n = 32 then 48 else NULL),
     node_value = (\<lambda>n. unat n div 16), events = []\<rparr>"

definition dead_lookup :: "nat \<Rightarrow> nat lookup_func" where
  "dead_lookup v = \<lparr>get_hash = of_nat v, equals = (\<lambda>x _. (x = v, True))\<rparr>"

lemma three_world_chain: "chain (node_next three_world) (first three_world (64, 0)) [16, 32, 48]"
  by (simp add: three_world_def first_def first_raw_def Bucket_first_def clear_state_def
      STATE_MASK_def)

theorem get_node_first_match_witness:
  "chain (node_next three_world) (first three_world (64, 0)) [16, 32, 48]
   \<and> get_node three_world (64, 0) (dead_lookup 2) False (Some 0) = Some (32, True, Some 2)
   \<and> get_node three_world (64, 0) (dead_lookup 1) False (Some 0) = Some (16, False, Some 1)
   \<and> get_node three_world (64, 0) (dead_lookup 7) False None = Some (NULL, True, None)"
  using get_node_first_match [OF three_world_chain, of "dead_lookup 2" False "Some 0"]
    get_node_first_match [OF three_world_chain, of "dead_lookup 1" False "Some 0"]
    get_node_first_match [OF three_world_chain, of "dead_lookup 7" False None]
    three_world_chain
  by (simp add: lookup_matches_def lookup_is_dead_def dead_lookup_def three_world_def)

section \<open>Buckets, slots and chains\<close>

definition aligned :: "ptr \<Rightarrow> bool" where
  "aligned p = (get_state p = 0)"

definition bucket_chain :: "'v world \<Rightarrow> bucket \<Rightarrow> ptr list \<Rightarrow> bool" where
  "bucket_chain w b ns = (chain (node_next w) (first w b) ns \<and> list_all aligned ns)"

definition in_table :: "'v world \<Rightarrow> bucket \<Rightarrow> bool" where
  "in_table w b = (snd b < length (buckets (tables w (fst b))))"

text \<open>The slot that holds the link to the node after the kept nodes of a bucket.\<close>

definition slot_after :: "bucket \<Rightarrow> ptr list \<Rightarrow> slot" where
  "slot_after b kept = (if kept = [] then First_ptr b else Next_ptr (last kept))"

lemma aligned_NULL [simp]: "aligned NULL"
  by (simp add: aligned_def get_state_def)

lemma aligned_clear_state: "aligned p \<Longrightarrow> clear_state p = p"
proof -
  assume "aligned p"
  then have "\<not> bit p 0 \<and> \<not> bit p 1" by (simp add: aligned_def get_state_0_iff)
  moreover have "n < 2 \<Longrightarrow> n = 0 \<or> n = 1" for n :: nat by arith
  ultimately have "bit p n \<Longrightarrow> 2 \<le> n" for n by (metis not_le)
  then show ?thesis
    by (intro bit_word_eqI) (simp only: bit_clear_state, blast)
qed

lemma clear_state_clear_set_state: "clear_state (clear_set_state p s) = clear_state p"
  by (rule bit_word_eqI) (simp only: bit_clear_state bit_clear_set_state, auto)

lemma get_state_clear_set_state: "get_state (clear_set_state p s) = get_state s"
  by (rule bit_word_eqI) (simp only: bit_get_state bit_clear_set_state, auto)

lemma clear_set_state_aligned: "aligned p \<Longrightarrow> aligned s \<Longrightarrow> clear_set_state p s = p"
proof -
  assume a: "aligned p" "aligned s"
  have "clear_set_state p s = clear_state p XOR get_state s" by (simp add: clear_set_state_def)
  with a show ?thesis by (simp add: aligned_clear_state aligned_def)
qed

lemma is_locked_clear_set_state:
  "Bucket_is_locked (clear_set_state p s) = Bucket_is_locked s"
  by (simp add: is_locked_iff bit_clear_set_state)

lemma have_redirect_clear_set_state:
  "Bucket_have_redirect (clear_set_state p s) = Bucket_have_redirect s"
  by (simp add: have_redirect_iff bit_clear_set_state)

lemma chain_unique: "chain nxt p as \<Longrightarrow> chain nxt p bs \<Longrightarrow> as = bs"
proof (induction as arbitrary: p bs)
  case Nil
  then show ?case by (cases bs) auto
next
  case (Cons a as)
  then show ?case by (cases bs) auto
qed

lemma chain_suffix: "chain nxt p (xs @ n # ys) \<Longrightarrow> chain nxt n (n # ys)"
  by (induction xs arbitrary: p) auto

lemma chain_distinct: "chain nxt p ns \<Longrightarrow> distinct ns"
proof (induction ns arbitrary: p)
  case Nil
  then show ?case by simp
next
  case (Cons n ns)
  then have tl: "chain nxt (nxt n) ns" and d: "distinct ns" by auto
  have "n \<notin> set ns"
  proof
    assume "n \<in> set ns"
    then obtain xs ys where ns: "ns = xs @ n # ys" by (auto simp: in_set_conv_decomp)
    with tl have "chain nxt n (n # ys)" by (auto dest: chain_suffix)
    moreover from Cons.prems have "chain nxt n (n # ns)" by simp
    ultimately have "n # ys = n # ns" by (rule chain_unique)
    with ns show False by simp
  qed
  with d show ?case by simp
qed

lemma chain_upd_notin: "n \<notin> set ns \<Longrightarrow> chain (nxt(n := v)) p ns = chain nxt p ns"
  by (induction ns arbitrary: p) auto

lemma chain_next_hd: "chain nxt p (xs @ h # t) \<Longrightarrow> nxt h = (case t of [] \<Rightarrow> NULL | x # _ \<Rightarrow> x)"
  by (induction xs arbitrary: p) (auto split: list.splits)

lemma chain_nonnull: "chain nxt p ns \<Longrightarrow> n \<in> set ns \<Longrightarrow> n \<noteq> NULL"
  by (induction ns arbitrary: p) auto

lemma clear_state_idem: "clear_state (clear_state f) = clear_state f"
  by (rule bit_word_eqI) (simp only: bit_clear_state, blast)

lemma clear_state_set_lock: "clear_state (set_state f STATE_LOCK_BIT) = clear_state f"
proof (rule bit_word_eqI)
  fix n
  have "bit (clear_state (set_state f STATE_LOCK_BIT)) n \<longleftrightarrow> (n = 0 \<or> bit f n) \<and> 2 \<le> n"
    by (simp only: bit_clear_state bit_set_state bit_STATE_LOCK_BIT)
  also have "\<dots> \<longleftrightarrow> bit f n \<and> 2 \<le> n" by auto
  also have "\<dots> \<longleftrightarrow> bit (clear_state f) n" by (simp only: bit_clear_state)
  finally show "bit (clear_state (set_state f STATE_LOCK_BIT)) n \<longleftrightarrow> bit (clear_state f) n" .
qed

lemma get_state_eq_bits:
  assumes "get_state x = get_state y"
  shows "bit x 0 = bit y 0" and "bit x 1 = bit y 1"
proof -
  have "bit (get_state x) 0 = bit x 0" "bit (get_state y) 0 = bit y 0"
    "bit (get_state x) 1 = bit x 1" "bit (get_state y) 1 = bit y 1"
    by (simp_all only: bit_get_state) simp_all
  with assms show "bit x 0 = bit y 0" and "bit x 1 = bit y 1" by simp_all
qed

lemma chain_hd: "chain nxt p ns \<Longrightarrow> p = (case ns of [] \<Rightarrow> NULL | x # _ \<Rightarrow> x)"
  by (cases ns) auto

lemma chain_splice:
  assumes "chain nxt p (kept @ h # t)" and "kept \<noteq> []"
  shows "chain (nxt(last kept := nxt h)) p (kept @ t)"
  using assms
proof (induction kept arbitrary: p)
  case Nil
  then show ?case by simp
next
  case (Cons k kept)
  from chain_distinct [OF Cons.prems(1)] have d: "distinct (k # kept @ h # t)" by simp
  show ?case
  proof (cases "kept = []")
    case True
    from Cons.prems(1) True have c: "p = k" "k \<noteq> NULL" "chain nxt (nxt h) t" by simp_all
    from d have "k \<notin> set t" by simp
    then have "chain (nxt(k := nxt h)) (nxt h) t = chain nxt (nxt h) t" by (rule chain_upd_notin)
    with c True show ?thesis by (simp add: fun_upd_def)
  next
    case False
    then have "last kept \<in> set kept" by simp
    with d have "last kept \<noteq> k" by auto
    moreover from Cons.prems(1) have "chain nxt (nxt k) (kept @ h # t)" "p = k" "k \<noteq> NULL" by simp_all
    ultimately show ?thesis using Cons.IH [OF _ False, of "nxt k"] False by simp
  qed
qed

lemma first_raw_set_first_raw:
  "first_raw (set_first_raw w b v) b' = (if b' = b \<and> in_table w b then v else first_raw w b')"
  by (cases b; cases b') (auto simp: first_raw_def set_first_raw_def in_table_def list_update_beyond)

lemma set_first_raw_fields [simp]:
  "node_next (set_first_raw w b v) = node_next w"
  "node_value (set_first_raw w b v) = node_value w"
  "events (set_first_raw w b v) = events w"
  "ASSERT (set_first_raw w b v) = ASSERT w"
  by (simp_all add: set_first_raw_def)

lemma in_table_set_first_raw [simp]: "in_table (set_first_raw w b v) b' = in_table w b'"
  by (simp add: in_table_def set_first_raw_def)

lemma log_event_fields [simp]:
  "node_next (log_event e w) = node_next w"
  "node_value (log_event e w) = node_value w"
  "events (log_event e w) = events w @ [e]"
  "first_raw (log_event e w) b = first_raw w b"
  "in_table (log_event e w) b = in_table w b"
  by (simp_all add: log_event_def first_raw_def in_table_def)

lemma in_table_node_next_update [simp]:
  "in_table (w\<lparr>node_next := x\<rparr>) b = in_table w b"
  by (simp add: in_table_def)

lemma store_slot_fields [simp]:
  "node_value (store_slot w s v) = node_value w"
  "events (store_slot w s v) = events w"
  "ASSERT (store_slot w s v) = ASSERT w"
  "in_table (store_slot w s v) b = in_table w b"
proof -
  show "node_value (store_slot w s v) = node_value w" by (cases s) simp_all
  show "events (store_slot w s v) = events w" by (cases s) simp_all
  show "ASSERT (store_slot w s v) = ASSERT w" by (cases s) simp_all
  show "in_table (store_slot w s v) b = in_table w b" by (cases s) simp_all
qed

lemma first_raw_node_next_update [simp]:
  "first_raw (w\<lparr>node_next := x\<rparr>) b = first_raw w b"
  by (simp add: first_raw_def)

lemma bucket_chain_log_event [simp]: "bucket_chain (log_event e w) b ns = bucket_chain w b ns"
  by (simp add: bucket_chain_def first_def)

text \<open>
  The store of \<^verbatim>\<open>release_assign_node_ptr\<close> into the slot after the kept nodes, of the
  successor of the next node \<open>h\<close>: it takes \<open>h\<close> out of the chain.
\<close>

definition splice_out :: "'v world \<Rightarrow> bucket \<Rightarrow> ptr list \<Rightarrow> ptr \<Rightarrow> 'v world" where
  "splice_out w b kept h =
     store_slot w (slot_after b kept)
       (clear_set_state (node_next w h) (load_slot w (slot_after b kept)))"

lemma splice_out_chain:
  assumes "bucket_chain w b (kept @ h # t)" and "in_table w b"
  shows "bucket_chain (splice_out w b kept h) b (kept @ t)"
proof -
  from assms(1) have ch: "chain (node_next w) (first w b) (kept @ h # t)"
    and al: "list_all aligned (kept @ h # t)" by (simp_all add: bucket_chain_def)
  from ch have nh: "node_next w h = (case t of [] \<Rightarrow> NULL | x # _ \<Rightarrow> x)" by (rule chain_next_hd)
  with al have anh: "aligned (node_next w h)" by (cases t) simp_all
  show ?thesis
  proof (cases "kept = []")
    case True
    with ch have "chain (node_next w) (node_next w h) t" by simp
    with True assms(2) anh al show ?thesis
      by (simp add: splice_out_def slot_after_def bucket_chain_def first_def first_raw_set_first_raw
          Bucket_first_def clear_state_clear_set_state aligned_clear_state)
  next
    case False
    then obtain ks k where kept: "kept = ks @ [k]" by (metis append_butlast_last_id)
    with ch have "node_next w k = h" using chain_next_hd [of "node_next w" "first w b" ks k "h # t"]
      by simp
    moreover from al have "aligned h" by simp
    ultimately have v: "clear_set_state (node_next w h) (node_next w k) = node_next w h"
      using anh by (simp add: clear_set_state_aligned)
    from chain_splice [OF ch False] kept
    have "chain ((node_next w)(k := node_next w h)) (first w b) (kept @ t)" by simp
    with kept v al show ?thesis
      by (simp add: splice_out_def slot_after_def bucket_chain_def first_def)
  qed
qed

lemma splice_out_fields [simp]:
  "node_value (splice_out w b kept h) = node_value w"
  "events (splice_out w b kept h) = events w"
  "ASSERT (splice_out w b kept h) = ASSERT w"
  "in_table (splice_out w b kept h) b' = in_table w b'"
  by (simp_all add: splice_out_def)

lemma splice_out_state:
  "get_state (first_raw (splice_out w b kept h) b') = get_state (first_raw w b')"
proof (cases "kept = []")
  case True
  show ?thesis
  proof (cases "b' = b \<and> in_table w b")
    case True
    with \<open>kept = []\<close> show ?thesis
      by (simp add: splice_out_def slot_after_def first_raw_set_first_raw get_state_clear_set_state)
  next
    case False
    with \<open>kept = []\<close> show ?thesis
      by (simp add: splice_out_def slot_after_def first_raw_set_first_raw get_state_clear_set_state)
  qed
next
  case False
  then show ?thesis by (simp add: splice_out_def slot_after_def)
qed


lemma first_set_first_raw:
  "in_table w b \<Longrightarrow> first (set_first_raw w b v) b = clear_state v"
  by (simp add: first_def first_raw_set_first_raw Bucket_first_def)

lemma bucket_chain_same:
  "first w' b = first w b \<Longrightarrow> node_next w' = node_next w \<Longrightarrow> bucket_chain w' b ns = bucket_chain w b ns"
  by (simp add: bucket_chain_def)

lemma set_first_raw_back:
  "in_table w b \<Longrightarrow> set_first_raw (set_first_raw w b x) b (first_raw w b) = w"
  by (cases b) (simp add: set_first_raw_def first_raw_def in_table_def)

lemma get_bucket_simps [simp]:
  "get_bucket (c\<lparr>invisible_epoch := x\<rparr>) w hash = get_bucket c w hash"
  "get_bucket c (log_event e w) hash = get_bucket c w hash"
  by (simp_all add: get_bucket_def get_bucket_in_def have_redirect_def Let_def)

section \<open>internal_remove\<close>

text \<open>
  The first node of a list on which \<^verbatim>\<open>equals\<close> returns true, the flag \<^verbatim>\<open>have_dead\<close> being
  handed from call to call as the loop of \<^verbatim>\<open>internal_remove\<close> does.
\<close>

fun first_match :: "'v lookup_func \<Rightarrow> 'v world \<Rightarrow> ptr list \<Rightarrow> bool \<Rightarrow> ptr option" where
  "first_match lookup_f w [] have_dead = None"
| "first_match lookup_f w (n # ns) have_dead =
     (case equals lookup_f (node_value w n) have_dead of (eq, have_dead') \<Rightarrow>
        if eq then Some n else first_match lookup_f w ns have_dead')"

lemma first_match_in_set: "first_match lookup_f w ns flag = Some n \<Longrightarrow> n \<in> set ns"
  by (induction ns arbitrary: flag) (auto split: prod.splits if_splits)

lemma first_match_same_values:
  "node_value w' = node_value w \<Longrightarrow> first_match lookup_f w' ns flag = first_match lookup_f w ns flag"
  by (induction ns arbitrary: flag) (auto split: prod.splits)

lemma internal_remove_loop_chain:
  assumes "bucket_chain w b (kept @ rest)" and "in_table w b" and "is_locked w b"
  shows "internal_remove_loop w b lookup_f (slot_after b kept)
           (case rest of [] \<Rightarrow> NULL | x # _ \<Rightarrow> x) flag =
     Some (Inr (case first_match lookup_f w rest flag of
                  None \<Rightarrow> (NULL, w)
                | Some n \<Rightarrow>
                    (n, log_event
                          (Release_assign (slot_after b (kept @ takeWhile (\<lambda>m. m \<noteq> n) rest))
                             (node_next w n))
                          (splice_out w b (kept @ takeWhile (\<lambda>m. m \<noteq> n) rest) n))))"
  using assms(1)
proof (induction rest arbitrary: kept flag)
  case Nil
  then show ?case by (subst internal_remove_loop.simps) simp
next
  case (Cons h t)
  from Cons.prems have ch: "chain (node_next w) (first w b) (kept @ h # t)"
    by (simp add: bucket_chain_def)
  then have hn: "h \<noteq> NULL" by (auto dest: chain_suffix)
  from ch have nh: "node_next w h = (case t of [] \<Rightarrow> NULL | x # _ \<Rightarrow> x)" by (rule chain_next_hd)
  from chain_distinct [OF ch] have ht: "h \<notin> set t" by simp
  obtain eq flag' where e: "equals lookup_f (node_value w h) flag = (eq, flag')"
    by (cases "equals lookup_f (node_value w h) flag")
  show ?case
  proof (cases eq)
    case True
    with e hn assms(3) show ?thesis
      by (subst internal_remove_loop.simps)
         (simp add: release_assign_node_ptr_def splice_out_def)
  next
    case False
    from Cons.prems have "bucket_chain w b ((kept @ [h]) @ t)" by simp
    from Cons.IH [OF this, of flag']
    have IH: "internal_remove_loop w b lookup_f (Next_ptr h) (node_next w h) flag' =
      Some (Inr (case first_match lookup_f w t flag' of
                  None \<Rightarrow> (NULL, w)
                | Some n \<Rightarrow>
                    (n, log_event
                          (Release_assign (slot_after b (kept @ h # takeWhile (\<lambda>m. m \<noteq> n) t))
                             (node_next w n))
                          (splice_out w b (kept @ h # takeWhile (\<lambda>m. m \<noteq> n) t) n))))"
      by (simp add: slot_after_def nh cong: option.case_cong)
    have tw: "first_match lookup_f w t flag' = Some n \<Longrightarrow>
        takeWhile (\<lambda>m. m \<noteq> n) (h # t) = h # takeWhile (\<lambda>m. m \<noteq> n) t" for n
      using ht by (auto dest: first_match_in_set)
    have nh': "first_match lookup_f w t flag' \<noteq> Some h"
      using ht by (auto dest: first_match_in_set)
    from False e hn nh' show ?thesis
      by (subst internal_remove_loop.simps)
         (auto simp: IH tw split: option.splits)
  qed
qed


lemma remove1_split_first:
  assumes "n \<in> set ns" and "distinct ns"
  shows "remove1 n ns = takeWhile (\<lambda>m. m \<noteq> n) ns @ tl (dropWhile (\<lambda>m. m \<noteq> n) ns)
    \<and> ns = takeWhile (\<lambda>m. m \<noteq> n) ns @ n # tl (dropWhile (\<lambda>m. m \<noteq> n) ns)"
  using assms by (induction ns) auto

lemma internal_remove_from:
  assumes "ScopedCS thread c w = (c1, log_event e w0)"
    and "b = get_bucket c1 w0 (get_hash lookup_f)"
    and "in_table w0 b" and "get_state (first_raw w0 b) = 0" and "bucket_chain w0 b ns"
  shows "case first_match lookup_f w0 ns False of
      None \<Rightarrow>
        internal_remove thread lookup_f c w =
          Some (Inr (False, c1,
                     w0\<lparr>events := events w0 @
                        [e, Critical_section_end thread]\<rparr>))
    | Some n \<Rightarrow>
        (\<exists>w'. internal_remove thread lookup_f c w =
                 Some (Inr (True, c1, w'))
          \<and> bucket_chain w' b (remove1 n ns)
          \<and> get_state (first_raw w' b) = 0
          \<and> events w' = events w0 @
                [e, Critical_section_end thread,
                 Release_assign (slot_after b (takeWhile (\<lambda>m. m \<noteq> n) ns)) (node_next w0 n),
                 Write_synchronize, Delete_f n, Destroy_node n])"
proof -
  let ?raw = "first_raw w0 b"
  let ?w1 = "log_event e w0"
  let ?w2 = "set_first_raw ?w1 b (set_state ?raw STATE_LOCK_BIT)"
  let ?w3 = "log_event (Critical_section_end thread) ?w2"
  from assms(4) have bits: "\<not> bit ?raw 0" "\<not> bit ?raw 1" by (simp_all add: get_state_0_iff)
  from assms(4) have cl: "clear_state ?raw = ?raw" by (simp add: aligned_clear_state aligned_def)
  note sc = assms(1)
  have tl: "trylock ?w1 b = (True, ?w2)"
    using bits cl by (simp add: trylock_def Bucket_trylock_def is_locked_iff Bucket_first_def Let_def)
  have gb: "get_bucket c1 ?w1 (get_hash lookup_f) = b"
    using assms(2) by simp
  have gbl: "get_bucket_locked thread (get_hash lookup_f) c w = Some (b, c1, ?w3)"
    unfolding get_bucket_locked_def
    by (subst get_bucket_locked_loop.simps)
       (simp add: sc assms(2) [symmetric] tl ScopedCS_destructor_def Let_def)
  have raw2: "first_raw ?w2 b = set_state ?raw STATE_LOCK_BIT"
    using assms(3) by (simp add: first_raw_set_first_raw)
  then have raw3: "first_raw ?w3 b = set_state ?raw STATE_LOCK_BIT"
    by simp
  then have lk3: "is_locked ?w3 b"
    by (simp add: is_locked_def is_locked_iff bit_set_state bit_STATE_LOCK_BIT)
  have cs: "clear_state (set_state ?raw STATE_LOCK_BIT) = ?raw"
    using cl by (simp add: clear_state_set_lock)
  have f3: "first ?w3 b = first w0 b"
    using raw3 cs cl by (simp add: first_def Bucket_first_def)
  have in3: "in_table ?w3 b" using assms(3) by simp
  from assms(5) f3 have bc3: "bucket_chain ?w3 b ([] @ ns)"
    by (simp add: bucket_chain_def)
  have f2: "first ?w2 b = first w0 b"
    using f3 by simp
  have hd3: "(case ns of [] \<Rightarrow> NULL | x # _ \<Rightarrow> x) = first w0 b"
    using assms(5) by (auto simp: bucket_chain_def dest: chain_hd)
  have loop: "internal_remove_loop ?w3 b lookup_f (First_ptr b) (first w0 b) False =
     Some (Inr (case first_match lookup_f ?w3 ns False of
                  None \<Rightarrow> (NULL, ?w3)
                | Some n \<Rightarrow>
                    (n, log_event
                          (Release_assign (slot_after b (takeWhile (\<lambda>m. m \<noteq> n) ns))
                             (node_next ?w3 n))
                          (splice_out ?w3 b (takeWhile (\<lambda>m. m \<noteq> n) ns) n))))"
    using internal_remove_loop_chain [OF bc3 in3 lk3, of lookup_f False]
    unfolding hd3 by (simp add: slot_after_def cong: option.case_cong)
  have fm: "first_match lookup_f ?w3 ns False = first_match lookup_f w0 ns False"
    by (rule first_match_same_values) simp
  show ?thesis
  proof (cases "first_match lookup_f w0 ns False")
    case None
    have un: "unlock ?w3 b = Inr (set_first_raw ?w3 b ?raw)"
      using raw3 bits cs
      by (simp add: unlock_def Bucket_unlock_def is_locked_iff have_redirect_iff bit_set_state
          bit_STATE_LOCK_BIT bit_STATE_REDIRECT_BIT Bucket_first_def cl)
    have restored: "set_first_raw ?w3 b ?raw =
        w0\<lparr>events := events w0 @ [e, Critical_section_end thread]\<rparr>"
      using assms(3) by (cases b) (simp add: set_first_raw_def first_raw_def in_table_def log_event_def)
    from None show ?thesis
      unfolding internal_remove_def
      by (simp add: gbl lk3 f2 loop fm un restored)
  next
    case (Some n)
    then have nin: "n \<in> set ns" by (rule first_match_in_set)
    from assms(5) have dist: "distinct ns" by (auto simp: bucket_chain_def dest: chain_distinct)
    let ?pre = "takeWhile (\<lambda>m. m \<noteq> n) ns"
    let ?post = "tl (dropWhile (\<lambda>m. m \<noteq> n) ns)"
    from remove1_split_first [OF nin dist]
    have rm: "remove1 n ns = ?pre @ ?post" and ns: "ns = ?pre @ n # ?post" by simp_all
    let ?w4 = "log_event (Release_assign (slot_after b ?pre) (node_next w0 n)) (splice_out ?w3 b ?pre n)"
    from bc3 ns have "bucket_chain ?w3 b (?pre @ n # ?post)" by simp
    from splice_out_chain [OF this in3] rm
    have bc4: "bucket_chain ?w4 b (remove1 n ns)" by simp
    have raw4: "get_state (first_raw ?w4 b) = get_state (set_state ?raw STATE_LOCK_BIT)"
      by (simp add: splice_out_state raw2)
    from get_state_eq_bits [OF raw4] bits
    have b4: "bit (first_raw ?w4 b) 0" "\<not> bit (first_raw ?w4 b) 1"
      by (simp_all only: bit_set_state bit_STATE_LOCK_BIT) simp_all
    let ?w5 = "set_first_raw ?w4 b (clear_state (clear_state (first_raw ?w4 b)))"
    have un: "unlock ?w4 b = Inr ?w5"
      using b4 by (simp add: unlock_def Bucket_unlock_def is_locked_iff have_redirect_iff Bucket_first_def)
    have in4: "in_table ?w4 b" using assms(3) by simp
    have "first ?w5 b = first ?w4 b"
      using assms(3) by (simp add: first_def Bucket_first_def first_raw_set_first_raw clear_state_idem)
    then have bc5: "bucket_chain ?w5 b (remove1 n ns)"
      using bc4 by (simp add: bucket_chain_def)
    have st5: "get_state (first_raw ?w5 b) = 0"
      using assms(3) by (simp add: first_raw_set_first_raw get_state_0_iff bit_clear_state)
    let ?w6 = "destroy_node (log_event (Delete_f n) (log_event Write_synchronize ?w5)) n"
    have nz: "n \<noteq> NULL" using assms(5) nin by (auto simp: bucket_chain_def dest: chain_nonnull)
    have res: "internal_remove thread lookup_f c w = Some (Inr (True, c1, ?w6))"
      unfolding internal_remove_def
      using Some nz by (simp add: gbl lk3 f2 loop fm un Let_def)
    have "bucket_chain ?w6 b (remove1 n ns)" using bc5 by (simp add: destroy_node_def)
    moreover have "get_state (first_raw ?w6 b) = 0" using st5 by (simp add: destroy_node_def)
    moreover have "events ?w6 = events w0 @
                [e, Critical_section_end thread,
                 Release_assign (slot_after b ?pre) (node_next w0 n),
                 Write_synchronize, Delete_f n, Destroy_node n]"
      by (simp add: destroy_node_def)
    ultimately show ?thesis using Some res by auto
  qed
qed

text \<open>
  C4. Let the bucket of the lookup's hash be inside its table, unlocked and not redirected,
  with the chain \<open>ns\<close>. When no node of the chain matches, \<^verbatim>\<open>internal_remove\<close> returns false
  and the memory is as before (tables, buckets and nodes; the log has only the critical
  section of \<^verbatim>\<open>get_bucket_locked\<close>, whose \<^verbatim>\<open>ScopedCS\<close> stores null into the invisible epoch
  when it was not null, and no call of the deleter). When a node \<open>n\<close> matches,
  it returns true, the chain is \<open>ns\<close> without \<open>n\<close>, the bucket is unlocked again, and the log
  has, after that critical section and in this order: the store that splices \<open>n\<close> out, the
  global \<^verbatim>\<open>write_synchronize\<close>, the deleter on \<open>n\<close>'s value, the destruction of \<open>n\<close>.
\<close>

theorem internal_remove_result:
  assumes "b = get_bucket c w (get_hash lookup_f)"
    and "in_table w b" and "get_state (first_raw w b) = 0" and "bucket_chain w b ns"
  shows "case first_match lookup_f w ns False of
      None \<Rightarrow>
        internal_remove thread lookup_f c w =
          Some (Inr (False, c\<lparr>invisible_epoch := NULL\<rparr>,
                     w\<lparr>events := events w @
                        Critical_section_begin thread #
                        (if invisible_epoch c \<noteq> NULL then [Release_store_invisible_epoch NULL] else []) @
                        [Critical_section_end thread]\<rparr>))
    | Some n \<Rightarrow>
        (\<exists>w'. internal_remove thread lookup_f c w =
                 Some (Inr (True, c\<lparr>invisible_epoch := NULL\<rparr>, w'))
          \<and> bucket_chain w' b (remove1 n ns)
          \<and> get_state (first_raw w' b) = 0
          \<and> events w' = events w @
                Critical_section_begin thread #
                (if invisible_epoch c \<noteq> NULL then [Release_store_invisible_epoch NULL] else []) @
                [Critical_section_end thread,
                 Release_assign (slot_after b (takeWhile (\<lambda>m. m \<noteq> n) ns)) (node_next w n),
                 Write_synchronize, Delete_f n, Destroy_node n])"
proof (cases "invisible_epoch c = NULL")
  case True
  let ?c1 = "c\<lparr>invisible_epoch := NULL\<rparr>"
  have sc: "ScopedCS thread c w = (?c1, log_event (Critical_section_begin thread) w)"
    using True by (simp add: ScopedCS_def Let_def)
  have gb: "b = get_bucket ?c1 w (get_hash lookup_f)"
    using assms(1) by simp
  from internal_remove_from [OF sc gb assms(2,3,4)] True show ?thesis
    by (simp cong: option.case_cong)
next
  case False
  let ?c1 = "c\<lparr>invisible_epoch := NULL\<rparr>"
  let ?w0 = "log_event (Critical_section_begin thread) w"
  have sc: "ScopedCS thread c w = (?c1, log_event (Release_store_invisible_epoch NULL) ?w0)"
    using False by (simp add: ScopedCS_def Let_def)
  have gb: "b = get_bucket ?c1 ?w0 (get_hash lookup_f)"
    using assms(1) by simp
  have in0: "in_table ?w0 b" using assms(2) by simp
  have st0: "get_state (first_raw ?w0 b) = 0" using assms(3) by simp
  have bc0: "bucket_chain ?w0 b ns" using assms(4) by simp
  have fm: "first_match lookup_f ?w0 ns False = first_match lookup_f w ns False"
    by (rule first_match_same_values) simp
  have w0: "?w0\<lparr>events := events ?w0 @
               [Release_store_invisible_epoch NULL, Critical_section_end thread]\<rparr>
          = w\<lparr>events := events w @
               [Critical_section_begin thread, Release_store_invisible_epoch NULL,
                Critical_section_end thread]\<rparr>"
    by (simp add: log_event_def)
  from internal_remove_from [OF sc gb in0 st0 bc0] False show ?thesis
    unfolding fm w0 by (simp cong: option.case_cong)
qed


definition three_cht :: cht where
  "three_cht = \<lparr>table = 64, new_table = NULL, log2_start_size = 5, log2_size_limit = 7,
     grow_hint = 4, size_limit_reached = False, resize_lock = False, resize_lock_owner = NULL,
     invisible_epoch = NULL\<rparr>"

definition remove_lookup :: "nat \<Rightarrow> nat lookup_func" where
  "remove_lookup v = \<lparr>get_hash = 0, equals = (\<lambda>x flag. (x = v, flag))\<rparr>"

lemma three_world_raw: "first_raw three_world (64, 0) = 16"
  by (simp add: three_world_def first_raw_def)

lemma three_world_get_bucket:
  "(64, 0) = get_bucket three_cht three_world (get_hash (remove_lookup v))"
  by (simp add: get_bucket_def get_bucket_in_def bucket_idx_hash_def have_redirect_def
      three_world_raw Bucket_have_redirect_def is_state_def STATE_REDIRECT_BIT_def
      remove_lookup_def three_cht_def)

lemma three_world_bucket:
  "in_table three_world (64, 0)"
  "get_state (first_raw three_world (64, 0)) = 0"
  "bucket_chain three_world (64, 0) [16, 32, 48]"
proof -
  show "in_table three_world (64, 0)"
    by (simp add: in_table_def three_world_def)
  show "get_state (first_raw three_world (64, 0)) = 0"
    by (simp add: three_world_raw get_state_def STATE_MASK_def)
  show "bucket_chain three_world (64, 0) [16, 32, 48]"
    using three_world_chain by (simp add: bucket_chain_def aligned_def get_state_def STATE_MASK_def)
qed

theorem internal_remove_result_witness:
  "(64, 0) = get_bucket three_cht three_world (get_hash (remove_lookup 2))
   \<and> in_table three_world (64, 0)
   \<and> get_state (first_raw three_world (64, 0)) = 0
   \<and> bucket_chain three_world (64, 0) [16, 32, 48]
   \<and> first_match (remove_lookup 2) three_world [16, 32, 48] False = Some 32
   \<and> first_match (remove_lookup 7) three_world [16, 32, 48] False = None
   \<and> (\<exists>w'. internal_remove 1000 (remove_lookup 2) three_cht three_world =
               Some (Inr (True, three_cht, w'))
          \<and> bucket_chain w' (64, 0) [16, 48]
          \<and> events w' = [Critical_section_begin 1000, Critical_section_end 1000,
                           Release_assign (Next_ptr 16) 48,
                           Write_synchronize, Delete_f 32, Destroy_node 32])
   \<and> internal_remove 1000 (remove_lookup 7) three_cht three_world =
         Some (Inr (False, three_cht,
                    three_world\<lparr>events := [Critical_section_begin 1000, Critical_section_end 1000]\<rparr>))"
proof -
  have m2: "first_match (remove_lookup 2) three_world [16, 32, 48] False = Some 32"
    by (simp add: remove_lookup_def three_world_def)
  have m7: "first_match (remove_lookup 7) three_world [16, 32, 48] False = None"
    by (simp add: remove_lookup_def three_world_def)
  have c: "three_cht\<lparr>invisible_epoch := NULL\<rparr> = three_cht" by (simp add: three_cht_def)
  have ce: "invisible_epoch three_cht = NULL" by (simp add: three_cht_def)
  have ev: "events three_world = []" by (simp add: three_world_def)
  have nx: "node_next three_world 32 = 48" by (simp add: three_world_def)
  from internal_remove_result [OF three_world_get_bucket [of 2] three_world_bucket, where thread = 1000,
      unfolded m2 option.case]
  have r2: "\<exists>w'. internal_remove 1000 (remove_lookup 2) three_cht three_world =
               Some (Inr (True, three_cht, w'))
          \<and> bucket_chain w' (64, 0) [16, 48]
          \<and> events w' = [Critical_section_begin 1000, Critical_section_end 1000,
                           Release_assign (Next_ptr 16) 48,
                           Write_synchronize, Delete_f 32, Destroy_node 32]"
    by (auto simp: c ce ev nx slot_after_def)
  from internal_remove_result [OF three_world_get_bucket [of 7] three_world_bucket, where thread = 1000,
      unfolded m7 option.case]
  have r7: "internal_remove 1000 (remove_lookup 7) three_cht three_world =
         Some (Inr (False, three_cht,
                    three_world\<lparr>events := [Critical_section_begin 1000, Critical_section_end 1000]\<rparr>))"
    by (simp add: c ce ev)
  from three_world_get_bucket [of 2] three_world_bucket m2 m7 r2 r7 show ?thesis by (intro conjI)
qed

section \<open>unzip_bucket\<close>

lemma splice_out_other:
  assumes "bucket_chain w b' ms" and "b' \<noteq> b" and "kept \<noteq> [] \<longrightarrow> last kept \<notin> set ms"
  shows "bucket_chain (splice_out w b kept h) b' ms"
proof (cases "kept = []")
  case True
  with assms(1,2) show ?thesis
    by (simp add: splice_out_def slot_after_def bucket_chain_def first_def first_raw_set_first_raw)
next
  case False
  with assms(1,3) show ?thesis
    by (simp add: splice_out_def slot_after_def bucket_chain_def first_def chain_upd_notin)
qed

lemma splice_out_next:
  "n \<notin> set kept \<Longrightarrow> node_next (splice_out w b kept h) n = node_next w n"
  by (cases "kept = []") (auto simp: splice_out_def slot_after_def)

lemma splice_out_hash_mask [simp]:
  "hash_mask (tables (splice_out w b kept h) t) = hash_mask (tables w t)"
  by (cases "kept = []") (simp_all add: splice_out_def slot_after_def set_first_raw_def)

lemma is_locked_get_state:
  "get_state (first_raw w' b') = get_state (first_raw w b) \<Longrightarrow> is_locked w' b' = is_locked w b"
  using get_state_eq_bits(1) [of "first_raw w' b'" "first_raw w b"]
  by (simp add: is_locked_def is_locked_iff)

lemma is_locked_splice_out [simp]: "is_locked (splice_out w b kept h) b' = is_locked w b'"
  by (rule is_locked_get_state) (rule splice_out_state)

lemma is_locked_log_event [simp]: "is_locked (log_event e w) b = is_locked w b"
  by (simp add: is_locked_def)

lemma release_assign_locked:
  "is_locked w b \<Longrightarrow>
   release_assign_node_ptr w b (slot_after b kept) (node_next w h) =
     Inr (log_event (Release_assign (slot_after b kept) (node_next w h)) (splice_out w b kept h))"
  by (simp add: release_assign_node_ptr_def splice_out_def)

lemma write_synchonize_result:
  assumes "resize_lock_owner c = thread" and "ASSERT w \<longrightarrow> invisible_epoch c = NULL \<or> invisible_epoch c = thread"
  shows "write_synchonize_on_visible_epoch thread c w =
           Inr (c\<lparr>invisible_epoch := thread\<rparr>,
                if invisible_epoch c = thread then w else log_event Write_synchronize (log_event (Release_store_invisible_epoch thread) w))"
  using assms by (auto simp: write_synchonize_on_visible_epoch_def assert_that_def Let_def)

text \<open>The nodes handed to \<^verbatim>\<open>Node::destroy_node\<close>, in the order of the calls.\<close>

fun destroyed :: "event list \<Rightarrow> ptr list" where
  "destroyed [] = []"
| "destroyed (Destroy_node n # es) = n # destroyed es"
| "destroyed (_ # es) = destroyed es"

lemma destroyed_append [simp]: "destroyed (xs @ ys) = destroyed xs @ destroyed ys"
  by (induction xs rule: destroyed.induct) simp_all

text \<open>
  What \<^verbatim>\<open>CONFIG::get_hash\<close> says of the value of a node: whether its hash is dead, and its
  bucket index under a hash mask.
\<close>

definition node_dead :: "('v \<Rightarrow> 64 word \<times> bool) \<Rightarrow> 'v world \<Rightarrow> ptr \<Rightarrow> bool" where
  "node_dead CONFIG_get_hash w n = snd (CONFIG_get_hash (node_value w n))"

definition node_index :: "('v \<Rightarrow> 64 word \<times> bool) \<Rightarrow> 'v world \<Rightarrow> ptr \<Rightarrow> ptr \<Rightarrow> nat" where
  "node_index CONFIG_get_hash w t n =
     bucket_idx_hash (tables w t) (fst (CONFIG_get_hash (node_value w n)))"

definition live_in :: "('v \<Rightarrow> 64 word \<times> bool) \<Rightarrow> 'v world \<Rightarrow> ptr \<Rightarrow> nat \<Rightarrow> ptr \<Rightarrow> bool" where
  "live_in CONFIG_get_hash w t i n =
     (\<not> node_dead CONFIG_get_hash w n \<and> node_index CONFIG_get_hash w t n = i)"


lemma live_in_same:
  assumes "node_value w' = node_value w" and "hash_mask (tables w' t) = hash_mask (tables w t)"
  shows "live_in gh w' t i = live_in gh w t i" and "node_dead gh w' = node_dead gh w"
    and "node_index gh w' t = node_index gh w t"
  using assms by (auto simp: live_in_def node_dead_def node_index_def bucket_idx_hash_def fun_eq_iff)

lemma in_table_destroy_node [simp]: "in_table (destroy_node w n) b = in_table w b"
  by (simp add: destroy_node_def)

lemma destroy_node_fields [simp]:
  "node_value (destroy_node w n) = node_value w"
  "node_next (destroy_node w n) = node_next w"
  "tables (destroy_node w n) = tables w"
  "ASSERT (destroy_node w n) = ASSERT w"
  "events (destroy_node w n) = events w @ [Destroy_node n]"
  "is_locked (destroy_node w n) b = is_locked w b"
  "bucket_chain (destroy_node w n) b ns = bucket_chain w b ns"
  by (simp_all add: destroy_node_def)

text \<open>
  The state of the loop of \<^verbatim>\<open>unzip_bucket\<close> before a node of the old chain is handled:
  the even sibling holds the kept nodes \<open>E\<close> and the odd sibling the kept nodes \<open>O\<close>, both
  followed by the rest of the old chain, and \<^verbatim>\<open>even\<close> and \<^verbatim>\<open>odd\<close> are the slots after them.
\<close>

definition unzip_inv ::
  "thread \<Rightarrow> ptr \<Rightarrow> nat \<Rightarrow> nat \<Rightarrow> cht \<Rightarrow> 'v world \<Rightarrow> ptr list \<Rightarrow> ptr list \<Rightarrow> ptr list \<Rightarrow> bool" where
  "unzip_inv thread new_t ei oi c w E O' rest \<longleftrightarrow>
     bucket_chain w (new_t, ei) (E @ rest) \<and> bucket_chain w (new_t, oi) (O' @ rest)
     \<and> set E \<inter> set O' = {}
     \<and> in_table w (new_t, ei) \<and> in_table w (new_t, oi)
     \<and> is_locked w (new_t, ei) \<and> is_locked w (new_t, oi)
     \<and> resize_lock_owner c = thread
     \<and> (\<not> ASSERT w \<or> invisible_epoch c = NULL \<or> invisible_epoch c = thread)"

lemma unzip_step_result:
  assumes neq: "ei \<noteq> oi"
    and inv: "unzip_inv thread new_t ei oi c w E O' (h # t)"
    and ok: "node_dead gh w h \<or> node_index gh w new_t h = ei \<or> node_index gh w new_t h = oi"
  shows "\<exists>c1 w1.
     unzip_step thread gh new_t ei oi c w h (slot_after (new_t, ei) E) (slot_after (new_t, oi) O') =
       Inr (c1, w1, (case t of [] \<Rightarrow> NULL | x # _ \<Rightarrow> x),
            slot_after (new_t, ei) (if live_in gh w new_t ei h then E @ [h] else E),
            slot_after (new_t, oi) (if live_in gh w new_t oi h then O' @ [h] else O'))
     \<and> unzip_inv thread new_t ei oi c1 w1
           (if live_in gh w new_t ei h then E @ [h] else E)
           (if live_in gh w new_t oi h then O' @ [h] else O') t
     \<and> destroyed (events w1) = destroyed (events w) @ (if node_dead gh w h then [h] else [])
     \<and> node_value w1 = node_value w
     \<and> hash_mask (tables w1 new_t) = hash_mask (tables w new_t)"
proof -
  let ?be = "(new_t, ei)" and ?bo = "(new_t, oi)"
  from inv have bce: "bucket_chain w ?be (E @ h # t)" and bco: "bucket_chain w ?bo (O' @ h # t)"
    and disj: "set E \<inter> set O' = {}"
    and ine: "in_table w ?be" and ino: "in_table w ?bo"
    and lke: "is_locked w ?be" and lko: "is_locked w ?bo"
    and own: "resize_lock_owner c = thread"
    and ep: "\<not> ASSERT w \<or> invisible_epoch c = NULL \<or> invisible_epoch c = thread"
    by (simp_all add: unzip_inv_def)
  from bce have che: "chain (node_next w) (first w ?be) (E @ h # t)" by (simp add: bucket_chain_def)
  from bco have cho: "chain (node_next w) (first w ?bo) (O' @ h # t)" by (simp add: bucket_chain_def)
  from chain_distinct [OF che] have de: "h \<notin> set E" "set E \<inter> set t = {}" "h \<notin> set t" by auto
  from chain_distinct [OF cho] have do: "h \<notin> set O'" "set O' \<inter> set t = {}" by auto
  from che have nh: "node_next w h = (case t of [] \<Rightarrow> NULL | x # _ \<Rightarrow> x)" by (rule chain_next_hd)
  from che have hn: "h \<noteq> NULL" by (auto dest: chain_suffix)
  have bneq: "?be \<noteq> ?bo" "?bo \<noteq> ?be" using neq by simp_all
  obtain aux_hash dead_hash where gh: "gh (node_value w h) = (aux_hash, dead_hash)"
    by (cases "gh (node_value w h)")
  then have dead: "node_dead gh w h = dead_hash"
    and idx: "node_index gh w new_t h = bucket_idx_hash (tables w new_t) aux_hash"
    by (simp_all add: node_dead_def node_index_def)
  let ?wo = "log_event (Release_assign (slot_after ?bo O') (node_next w h)) (splice_out w ?bo O' h)"
  let ?we = "log_event (Release_assign (slot_after ?be E) (node_next w h)) (splice_out w ?be E h)"
  have ro: "release_assign_node_ptr w ?bo (slot_after ?bo O') (node_next w h) = Inr ?wo"
    using lko by (rule release_assign_locked)
  have re: "release_assign_node_ptr w ?be (slot_after ?be E) (node_next w h) = Inr ?we"
    using lke by (rule release_assign_locked)
  \<comment> \<open>after the store into the odd slot\<close>
  have o1: "bucket_chain ?wo ?bo (O' @ t)" using splice_out_chain [OF bco ino] by simp
  have o2: "bucket_chain ?wo ?be (E @ h # t)"
    using splice_out_other [OF bce bneq(1), of O' h] disj do
    by (auto dest: last_in_set)
  \<comment> \<open>after the store into the even slot\<close>
  have e1: "bucket_chain ?we ?be (E @ t)" using splice_out_chain [OF bce ine] by simp
  have e2: "bucket_chain ?we ?bo (O' @ h # t)"
    using splice_out_other [OF bco bneq(2), of E h] disj de
    by (auto dest: last_in_set)
  show ?thesis
  proof (cases dead_hash)
    case True
    let ?w2 = "log_event (Release_assign (slot_after ?be E) (node_next ?wo h)) (splice_out ?wo ?be E h)"
    let ?w3 = "if invisible_epoch c = thread then ?w2 else log_event Write_synchronize (log_event (Release_store_invisible_epoch thread) ?w2)"
    have r2: "release_assign_node_ptr ?wo ?be (slot_after ?be E) (node_next ?wo h) = Inr ?w2"
      using lke by (intro release_assign_locked) simp
    have ws: "write_synchonize_on_visible_epoch thread c ?w2 =
        Inr (c\<lparr>invisible_epoch := thread\<rparr>, ?w3)"
      using own ep by (intro write_synchonize_result) auto
    have n2: "node_next ?w2 h = node_next w h"
      using de(1) do(1) by (simp add: splice_out_next)
    have st: "unzip_step thread gh new_t ei oi c w h (slot_after ?be E) (slot_after ?bo O') =
        Inr (c\<lparr>invisible_epoch := thread\<rparr>, destroy_node ?w3 h, node_next w h,
             slot_after ?be E, slot_after ?bo O')"
      unfolding unzip_step_def gh using True hn
      by (simp only: prod.case if_True ro r2 bindE_simps ws n2 Let_def) simp
    have c2e: "bucket_chain ?w2 ?be (E @ t)"
      using splice_out_chain [OF o2] ine by simp
    have c2o: "bucket_chain ?w2 ?bo (O' @ t)"
      using splice_out_other [OF o1 bneq(2), of E h] disj de
      by (auto dest: last_in_set)
    have inv': "unzip_inv thread new_t ei oi (c\<lparr>invisible_epoch := thread\<rparr>) (destroy_node ?w3 h) E O' t"
      using c2e c2o disj ine ino lke lko own
      by (simp add: unzip_inv_def)
    have ev: "destroyed (events (destroy_node ?w3 h)) = destroyed (events w) @ [h]"
      by simp
    have nl: "\<not> live_in gh w new_t ei h" "\<not> live_in gh w new_t oi h"
      using True dead by (simp_all add: live_in_def)
    from st inv' ev nl True dead nh show ?thesis by simp
  next
    case False
    note live = False
    show ?thesis
    proof (cases "bucket_idx_hash (tables w new_t) aux_hash = ei")
      case True
      let ?w3 = "if invisible_epoch c = thread then ?wo else log_event Write_synchronize (log_event (Release_store_invisible_epoch thread) ?wo)"
      have ws: "write_synchonize_on_visible_epoch thread c ?wo =
          Inr (c\<lparr>invisible_epoch := thread\<rparr>, ?w3)"
        using own ep by (intro write_synchonize_result) auto
      have n2: "node_next ?wo h = node_next w h"
        using do(1) by (simp add: splice_out_next)
      have st: "unzip_step thread gh new_t ei oi c w h (slot_after ?be E) (slot_after ?bo O') =
          Inr (c\<lparr>invisible_epoch := thread\<rparr>, ?w3, node_next w h,
               Next_ptr h, slot_after ?bo O')"
        unfolding unzip_step_def gh using True live
        by (simp only: prod.case if_False if_True ro bindE_simps ws n2 Let_def refl) simp
      have inv': "unzip_inv thread new_t ei oi (c\<lparr>invisible_epoch := thread\<rparr>) ?w3 (E @ [h]) O' t"
        using o1 o2 disj do ine ino lke lko own
        by (simp add: unzip_inv_def)
      have ev: "destroyed (events ?w3) = destroyed (events w)"
        by simp
      have nl: "live_in gh w new_t ei h" "\<not> live_in gh w new_t oi h"
        using True live dead idx neq by (simp_all add: live_in_def)
      from st inv' ev nl live dead nh show ?thesis by (simp add: slot_after_def)
    next
      case False
      with ok dead idx live have io: "bucket_idx_hash (tables w new_t) aux_hash = oi" by simp
      let ?w3 = "if invisible_epoch c = thread then ?we else log_event Write_synchronize (log_event (Release_store_invisible_epoch thread) ?we)"
      have ws: "write_synchonize_on_visible_epoch thread c ?we =
          Inr (c\<lparr>invisible_epoch := thread\<rparr>, ?w3)"
        using own ep by (intro write_synchonize_result) auto
      have n2: "node_next ?we h = node_next w h"
        using de(1) by (simp add: splice_out_next)
      have st: "unzip_step thread gh new_t ei oi c w h (slot_after ?be E) (slot_after ?bo O') =
          Inr (c\<lparr>invisible_epoch := thread\<rparr>, ?w3, node_next w h,
               slot_after ?be E, Next_ptr h)"
        unfolding unzip_step_def gh using False io live
        by (simp only: prod.case if_False if_True re bindE_simps ws n2 Let_def refl) simp
      have inv': "unzip_inv thread new_t ei oi (c\<lparr>invisible_epoch := thread\<rparr>) ?w3 E (O' @ [h]) t"
        using e1 e2 disj de ine ino lke lko own
        by (simp add: unzip_inv_def)
      have ev: "destroyed (events ?w3) = destroyed (events w)"
        by simp
      have nl: "\<not> live_in gh w new_t ei h" "live_in gh w new_t oi h"
        using False io live dead idx by (simp_all add: live_in_def)
      from st inv' ev nl live dead nh show ?thesis by (simp add: slot_after_def)
    qed
  qed
qed


lemma unzip_loop_result:
  assumes "ei \<noteq> oi"
    and "unzip_inv thread new_t ei oi c w E O' rest"
    and "list_all (\<lambda>n. node_dead gh w n \<or> node_index gh w new_t n = ei
                      \<or> node_index gh w new_t n = oi) rest"
  shows "\<exists>c' w'.
     unzip_loop thread gh new_t ei oi c w (case rest of [] \<Rightarrow> NULL | x # _ \<Rightarrow> x)
         (slot_after (new_t, ei) E) (slot_after (new_t, oi) O') = Some (Inr (c', w'))
     \<and> unzip_inv thread new_t ei oi c' w'
           (E @ filter (live_in gh w new_t ei) rest) (O' @ filter (live_in gh w new_t oi) rest) []
     \<and> destroyed (events w') = destroyed (events w) @ filter (node_dead gh w) rest
     \<and> node_value w' = node_value w
     \<and> hash_mask (tables w' new_t) = hash_mask (tables w new_t)"
  using assms(2,3)
proof (induction rest arbitrary: c w E O')
  case Nil
  then show ?case by (subst unzip_loop.simps) simp
next
  case (Cons h t)
  let ?E = "if live_in gh w new_t ei h then E @ [h] else E"
  let ?O = "if live_in gh w new_t oi h then O' @ [h] else O'"
  from Cons.prems(2) have ok: "node_dead gh w h \<or> node_index gh w new_t h = ei
      \<or> node_index gh w new_t h = oi" by simp
  from unzip_step_result [OF assms(1) Cons.prems(1) ok]
  obtain c1 w1 where
    st: "unzip_step thread gh new_t ei oi c w h (slot_after (new_t, ei) E) (slot_after (new_t, oi) O') =
       Inr (c1, w1, (case t of [] \<Rightarrow> NULL | x # _ \<Rightarrow> x),
            slot_after (new_t, ei) ?E, slot_after (new_t, oi) ?O)"
    and inv1: "unzip_inv thread new_t ei oi c1 w1 ?E ?O t"
    and ev1: "destroyed (events w1) = destroyed (events w) @ (if node_dead gh w h then [h] else [])"
    and nv: "node_value w1 = node_value w"
    and hm: "hash_mask (tables w1 new_t) = hash_mask (tables w new_t)"
    by blast
  note same = live_in_same [OF nv hm, of gh]
  from Cons.prems(2) have ok1: "list_all (\<lambda>n. node_dead gh w1 n \<or> node_index gh w1 new_t n = ei
      \<or> node_index gh w1 new_t n = oi) t"
    by (simp add: same)
  from Cons.IH [OF inv1 ok1] obtain c' w' where
    lp: "unzip_loop thread gh new_t ei oi c1 w1 (case t of [] \<Rightarrow> NULL | x # _ \<Rightarrow> x)
         (slot_after (new_t, ei) ?E) (slot_after (new_t, oi) ?O) = Some (Inr (c', w'))"
    and inv': "unzip_inv thread new_t ei oi c' w'
           (?E @ filter (live_in gh w1 new_t ei) t) (?O @ filter (live_in gh w1 new_t oi) t) []"
    and ev': "destroyed (events w') = destroyed (events w1) @ filter (node_dead gh w1) t"
    and nv': "node_value w' = node_value w1"
    and hm': "hash_mask (tables w' new_t) = hash_mask (tables w1 new_t)"
    by blast
  from Cons.prems(1) have hn: "h \<noteq> NULL"
    by (auto simp: unzip_inv_def bucket_chain_def dest: chain_suffix)
  have run: "unzip_loop thread gh new_t ei oi c w h
         (slot_after (new_t, ei) E) (slot_after (new_t, oi) O') = Some (Inr (c', w'))"
    using hn by (subst unzip_loop.simps) (simp add: st lp)
  have fe: "E @ filter (live_in gh w new_t ei) (h # t) = ?E @ filter (live_in gh w1 new_t ei) t"
    by (simp add: same)
  have fo: "O' @ filter (live_in gh w new_t oi) (h # t) = ?O @ filter (live_in gh w1 new_t oi) t"
    by (simp add: same)
  have fd: "destroyed (events w') = destroyed (events w) @ filter (node_dead gh w) (h # t)"
    using ev' ev1 by (simp add: same)
  from run inv' fd nv nv' hm hm' show ?case
    unfolding fe fo by simp
qed

lemma unzip_bucket_result:
  assumes "even_index \<noteq> odd_index"
    and "in_table w (new_t, even_index)" and "in_table w (new_t, odd_index)"
    and "is_locked w (new_t, even_index)" and "is_locked w (new_t, odd_index)"
    and "bucket_chain w (old_t, even_index) ns" and "ns \<noteq> []"
    and "first w (new_t, even_index) = first w (old_t, even_index)"
    and "first w (new_t, odd_index) = first w (old_t, even_index)"
    and "resize_lock_owner c = thread"
    and "\<not> ASSERT w \<or> invisible_epoch c = NULL \<or> invisible_epoch c = thread"
    and "list_all (\<lambda>n. node_dead gh w n \<or> node_index gh w new_t n = even_index
                      \<or> node_index gh w new_t n = odd_index) ns"
  shows "\<exists>c' w'.
     unzip_bucket thread gh old_t new_t even_index odd_index c w = Some (Inr (True, c', w'))
     \<and> bucket_chain w' (new_t, even_index) (filter (live_in gh w new_t even_index) ns)
     \<and> bucket_chain w' (new_t, odd_index) (filter (live_in gh w new_t odd_index) ns)
     \<and> destroyed (events w') = destroyed (events w) @ filter (node_dead gh w) ns
     \<and> node_value w' = node_value w"
proof -
  from assms(6) have hd: "first w (old_t, even_index) = (case ns of [] \<Rightarrow> NULL | x # _ \<Rightarrow> x)"
    by (auto simp: bucket_chain_def dest: chain_hd)
  with assms(6,7) have nz: "first w (old_t, even_index) \<noteq> NULL"
    by (cases ns) (auto simp: bucket_chain_def)
  have inv: "unzip_inv thread new_t even_index odd_index c w [] [] ns"
    using assms by (simp add: unzip_inv_def bucket_chain_def)
  from unzip_loop_result [OF assms(1) inv assms(12)] obtain c' w' where
    lp: "unzip_loop thread gh new_t even_index odd_index c w (first w (old_t, even_index))
         (First_ptr (new_t, even_index)) (First_ptr (new_t, odd_index)) = Some (Inr (c', w'))"
    and inv': "unzip_inv thread new_t even_index odd_index c' w'
           (filter (live_in gh w new_t even_index) ns) (filter (live_in gh w new_t odd_index) ns) []"
    and ev: "destroyed (events w') = destroyed (events w) @ filter (node_dead gh w) ns"
    and nv: "node_value w' = node_value w"
    unfolding hd by (auto simp: slot_after_def)
  have "unzip_bucket thread gh old_t new_t even_index odd_index c w = Some (Inr (True, c', w'))"
    using nz by (simp add: unzip_bucket_def Let_def lp)
  with inv' ev nv show ?thesis by (auto simp: unzip_inv_def)
qed


lemma hash_mask_InternalTable: "hash_mask (InternalTable l) = mask l"
proof -
  have "NOT (push_bit l (NOT 0 :: 64 word)) = NOT (NOT (mask l))"
    by (simp add: push_bit_minus_one_eq_not_mask)
  then show ?thesis by (simp add: InternalTable_def)
qed

lemma unat_and_mask_Suc:
  fixes x :: "64 word"
  shows "unat (x AND mask (Suc l)) = unat (x AND mask l) \<or>
         unat (x AND mask (Suc l)) = unat (x AND mask l) + 2 ^ l"
proof -
  have m: "unat (x AND mask n) = unat x mod 2 ^ n" for n
  proof -
    have "x AND mask n = take_bit n x" by (simp only: take_bit_eq_mask)
    then have "unat (x AND mask n) = take_bit n (unat x)" by (simp only: unsigned_take_bit_eq)
    then show ?thesis by (simp only: take_bit_eq_mod)
  qed
  have "unat x mod (2 ^ l * 2) = 2 ^ l * (unat x div 2 ^ l mod 2) + unat x mod 2 ^ l"
    by (rule mod_mult2_eq)
  moreover have "unat x div 2 ^ l mod 2 = 0 \<or> unat x div 2 ^ l mod 2 = 1" by arith
  ultimately have "unat x mod 2 ^ Suc l = unat x mod 2 ^ l
      \<or> unat x mod 2 ^ Suc l = unat x mod 2 ^ l + 2 ^ l"
    by (auto simp: mult.commute)
  then show ?thesis by (simp only: m)
qed

text \<open>
  C1. Let \<^verbatim>\<open>unzip_bucket\<close> be called as \<^verbatim>\<open>internal_grow_range\<close> calls it: the old table has
  \<open>2^l\<close> buckets and the new one \<open>2^(l+1)\<close>, the odd index is the even index plus \<open>2^l\<close>,
  the old bucket has the non-empty chain \<open>ns\<close>, each node of it that is not dead being in the
  bucket of its hash, the two sibling buckets of the new table are locked and hold copies of
  the old head, and the caller holds the resize lock. Then the call returns true; the even
  sibling's chain is the nodes of \<open>ns\<close> that are not dead and whose hash has the even index
  under the new mask, in their order, the odd sibling's chain the same for the odd index (so
  every live node is in the bucket of its hash, once, and in no other); and the nodes handed
  to \<^verbatim>\<open>Node::destroy_node\<close> are the dead nodes of \<open>ns\<close>, which are on neither chain.
\<close>

theorem unzip_bucket_distributes:
  assumes "hash_mask (tables w old_t) = mask l" and "hash_mask (tables w new_t) = mask (Suc l)"
    and "odd_index = even_index + 2 ^ l"
    and "in_table w (new_t, even_index)" and "in_table w (new_t, odd_index)"
    and "is_locked w (new_t, even_index)" and "is_locked w (new_t, odd_index)"
    and "bucket_chain w (old_t, even_index) ns" and "ns \<noteq> []"
    and "first w (new_t, even_index) = first w (old_t, even_index)"
    and "first w (new_t, odd_index) = first w (old_t, even_index)"
    and "resize_lock_owner c = thread"
    and "\<not> ASSERT w \<or> invisible_epoch c = NULL \<or> invisible_epoch c = thread"
    and "list_all (\<lambda>n. node_dead gh w n \<or> node_index gh w old_t n = even_index) ns"
  shows "\<exists>c' w'.
     unzip_bucket thread gh old_t new_t even_index odd_index c w = Some (Inr (True, c', w'))
     \<and> bucket_chain w' (new_t, even_index) (filter (live_in gh w new_t even_index) ns)
     \<and> bucket_chain w' (new_t, odd_index) (filter (live_in gh w new_t odd_index) ns)
     \<and> destroyed (events w') = destroyed (events w) @ filter (node_dead gh w) ns
     \<and> node_value w' = node_value w"
proof -
  have neq: "even_index \<noteq> odd_index" using assms(3) by simp
  have "node_index gh w new_t n = even_index \<or> node_index gh w new_t n = odd_index"
    if "node_index gh w old_t n = even_index" for n
    using that unat_and_mask_Suc [of "fst (gh (node_value w n))" l] assms(1,2,3)
    by (auto simp: node_index_def bucket_idx_hash_def)
  with assms(14) have ok: "list_all (\<lambda>n. node_dead gh w n \<or> node_index gh w new_t n = even_index
                      \<or> node_index gh w new_t n = odd_index) ns"
    by (auto simp: list_all_iff)
  from unzip_bucket_result [OF neq assms(4-13) ok] show ?thesis .
qed

text \<open>
  A bucket 0 of a table of 32 buckets, locked and redirected, with the nodes 16, 32, 48; the
  hash of a value is the value, the value 2 is dead. The values are 32, 2 and 64.
\<close>

definition unzip_world :: "nat world" where
  "unzip_world = \<lparr>ASSERT = True,
     tables = (\<lambda>t. if t = 128
                   then (InternalTable 6)\<lparr>buckets := (replicate 64 NULL)[0 := 17, 32 := 17]\<rparr>
                   else (InternalTable 5)\<lparr>buckets := 19 # replicate 31 NULL\<rparr>),
     table_heap = [],
     node_next = (\<lambda>n. if n = 16 then 32 else if n = 32 then 48 else NULL),
     node_value = (\<lambda>n. if n = 16 then 32 else if n = 32 then 2 else 64),
     events = []\<rparr>"

definition unzip_cht :: cht where
  "unzip_cht = \<lparr>table = 64, new_table = 128, log2_start_size = 5, log2_size_limit = 7,
     grow_hint = 4, size_limit_reached = False, resize_lock = True, resize_lock_owner = 1000,
     invisible_epoch = NULL\<rparr>"

definition unzip_hash :: "nat \<Rightarrow> 64 word \<times> bool" where
  "unzip_hash v = (of_nat v, v = 2)"

lemma unzip_world_facts:
  "hash_mask (tables unzip_world 64) = mask 5"
  "hash_mask (tables unzip_world 128) = mask (Suc 5)"
  "(32 :: nat) = 0 + 2 ^ 5"
  "in_table unzip_world (128, 0)"
  "in_table unzip_world (128, 32)"
  "is_locked unzip_world (128, 0)"
  "is_locked unzip_world (128, 32)"
  "bucket_chain unzip_world (64, 0) [16, 32, 48]"
  "[16, 32, 48 :: ptr] \<noteq> []"
  "first unzip_world (128, 0) = first unzip_world (64, 0)"
  "first unzip_world (128, 32) = first unzip_world (64, 0)"
  "resize_lock_owner unzip_cht = 1000"
  "\<not> ASSERT unzip_world \<or> invisible_epoch unzip_cht = NULL \<or> invisible_epoch unzip_cht = 1000"
  "list_all (\<lambda>n. node_dead unzip_hash unzip_world n \<or> node_index unzip_hash unzip_world 64 n = 0)
     [16, 32, 48]"
proof -
  have r0: "first_raw unzip_world (64, 0) = 19"
    by (simp add: unzip_world_def first_raw_def)
  have r1: "first_raw unzip_world (128, 0) = 17"
    by (simp add: unzip_world_def first_raw_def InternalTable_def)
  have r2: "first_raw unzip_world (128, 32) = 17"
    by (simp add: unzip_world_def first_raw_def InternalTable_def)
  have cs: "clear_state 19 = 16" "clear_state 17 = 16"
    by (simp_all add: clear_state_def STATE_MASK_def)
  show "hash_mask (tables unzip_world 64) = mask 5"
    by (simp add: unzip_world_def hash_mask_InternalTable)
  show "hash_mask (tables unzip_world 128) = mask (Suc 5)"
    by (simp add: unzip_world_def hash_mask_InternalTable)
  show "(32 :: nat) = 0 + 2 ^ 5" by simp
  show "in_table unzip_world (128, 0)" "in_table unzip_world (128, 32)"
    by (simp_all add: in_table_def unzip_world_def)
  show "is_locked unzip_world (128, 0)" "is_locked unzip_world (128, 32)"
    by (simp_all add: is_locked_def r1 r2 Bucket_is_locked_def is_state_def STATE_LOCK_BIT_def)
  show "bucket_chain unzip_world (64, 0) [16, 32, 48]"
    by (simp add: bucket_chain_def first_def r0 Bucket_first_def cs aligned_def get_state_def
        STATE_MASK_def) (simp add: unzip_world_def)
  show "[16, 32, 48 :: ptr] \<noteq> []" by simp
  show "first unzip_world (128, 0) = first unzip_world (64, 0)"
    "first unzip_world (128, 32) = first unzip_world (64, 0)"
    by (simp_all add: first_def r0 r1 r2 Bucket_first_def cs)
  show "resize_lock_owner unzip_cht = 1000" by (simp add: unzip_cht_def)
  show "\<not> ASSERT unzip_world \<or> invisible_epoch unzip_cht = NULL \<or> invisible_epoch unzip_cht = 1000"
    by (simp add: unzip_cht_def)
  show "list_all (\<lambda>n. node_dead unzip_hash unzip_world n \<or> node_index unzip_hash unzip_world 64 n = 0)
     [16, 32, 48]"
    by (simp add: node_dead_def node_index_def unzip_hash_def bucket_idx_hash_def
        unzip_world_def hash_mask_InternalTable mask_eq_exp_minus_1)
qed

theorem unzip_bucket_distributes_witness:
  "hash_mask (tables unzip_world 64) = mask 5
   \<and> hash_mask (tables unzip_world 128) = mask (Suc 5)
   \<and> is_locked unzip_world (128, 0) \<and> is_locked unzip_world (128, 32)
   \<and> bucket_chain unzip_world (64, 0) [16, 32, 48]
   \<and> first unzip_world (128, 0) = first unzip_world (64, 0)
   \<and> first unzip_world (128, 32) = first unzip_world (64, 0)
   \<and> resize_lock_owner unzip_cht = 1000
   \<and> (\<exists>c' w'. unzip_bucket 1000 unzip_hash 64 128 0 32 unzip_cht unzip_world
                   = Some (Inr (True, c', w'))
          \<and> bucket_chain w' (128, 0) [48]
          \<and> bucket_chain w' (128, 32) [16]
          \<and> destroyed (events w') = [32])"
proof -
  have f: "filter (live_in unzip_hash unzip_world 128 0) [16, 32, 48] = [48]"
    "filter (live_in unzip_hash unzip_world 128 32) [16, 32, 48] = [16]"
    "filter (node_dead unzip_hash unzip_world) [16, 32, 48] = [32]"
    "events unzip_world = []"
    by (simp_all add: live_in_def node_dead_def node_index_def unzip_hash_def bucket_idx_hash_def
        unzip_world_def hash_mask_InternalTable mask_eq_exp_minus_1)
  from unzip_bucket_distributes [OF unzip_world_facts]
  have "\<exists>c' w'. unzip_bucket 1000 unzip_hash 64 128 0 32 unzip_cht unzip_world
                   = Some (Inr (True, c', w'))
          \<and> bucket_chain w' (128, 0) [48]
          \<and> bucket_chain w' (128, 32) [16]
          \<and> destroyed (events w') = [32]"
    unfolding f by auto
  with unzip_world_facts show ?thesis by (intro conjI)
qed

section \<open>try_move_nodes_to\<close>

lemma set_next_fields [simp]:
  "node_value (set_next w n v) = node_value w"
  "events (set_next w n v) = events w"
  "ASSERT (set_next w n v) = ASSERT w"
  "tables (set_next w n v) = tables w"
  "first_raw (set_next w n v) b = first_raw w b"
  "in_table (set_next w n v) b = in_table w b"
  "node_next (set_next w n v) = (node_next w)(n := v)"
  by (simp_all add: set_next_def first_raw_def in_table_def)

lemma tables_set_first_raw_fields [simp]:
  "hash_mask (tables (set_first_raw w b v) t) = hash_mask (tables w t)"
  "tsize (tables (set_first_raw w b v) t) = tsize (tables w t)"
  by (simp_all add: set_first_raw_def)

lemma bucket_chain_set_first_raw_other:
  "b' \<noteq> b \<Longrightarrow> bucket_chain (set_first_raw w b v) b' ns = bucket_chain w b' ns"
  by (simp add: bucket_chain_def first_def first_raw_set_first_raw)

lemma bucket_chain_set_next_notin:
  "n \<notin> set ns \<Longrightarrow> bucket_chain (set_next w n v) b ns = bucket_chain w b ns"
  by (simp add: bucket_chain_def first_def chain_upd_notin)

lemma first_raw_aligned_first:
  "get_state (first_raw w b) = 0 \<Longrightarrow> first w b = first_raw w b"
  by (simp add: first_def Bucket_first_def aligned_clear_state aligned_def)

lemma unlocked_state:
  assumes "get_state (first_raw w b) = 0"
  shows "\<not> is_locked w b" and "\<not> have_redirect w b"
  using assms
  by (simp_all add: is_locked_def have_redirect_def is_locked_iff have_redirect_iff get_state_0_iff)

text \<open>
  The source table \<open>t\<close> with \<open>n\<close> buckets holding the chains \<open>S i\<close>, the destination table
  \<open>tt\<close> with \<open>m\<close> buckets holding the chains \<open>D j\<close>: all buckets unlocked and not redirected,
  no node in two chains. The values and the destination's hash mask are those of \<open>w0\<close>.
\<close>

definition move_inv ::
  "'v world \<Rightarrow> 'v world \<Rightarrow> ptr \<Rightarrow> nat \<Rightarrow> ptr \<Rightarrow> nat \<Rightarrow> (nat \<Rightarrow> ptr list) \<Rightarrow> (nat \<Rightarrow> ptr list) \<Rightarrow> bool" where
  "move_inv w0 w t n tt m S D \<longleftrightarrow>
     t \<noteq> tt \<and> tsize (tables w t) = n
     \<and> node_value w = node_value w0 \<and> hash_mask (tables w tt) = hash_mask (tables w0 tt)
     \<and> events w = events w0 \<and> ASSERT w = ASSERT w0
     \<and> (\<forall>hash. bucket_idx_hash (tables w0 tt) hash < m)
     \<and> (\<forall>i<n. bucket_chain w (t, i) (S i) \<and> get_state (first_raw w (t, i)) = 0 \<and> in_table w (t, i))
     \<and> (\<forall>j<m. bucket_chain w (tt, j) (D j) \<and> get_state (first_raw w (tt, j)) = 0 \<and> in_table w (tt, j))
     \<and> (\<forall>i<n. \<forall>j<m. set (S i) \<inter> set (D j) = {})
     \<and> (\<forall>i<n. \<forall>k<n. i \<noteq> k \<longrightarrow> set (S i) \<inter> set (S k) = {})
     \<and> (\<forall>j<m. \<forall>k<m. j \<noteq> k \<longrightarrow> set (D j) \<inter> set (D k) = {})"

lemma move_node_step_result:
  assumes inv: "move_inv w0 w t n tt m S D" and i: "i < n" and Si: "S i = h # rest"
    and tt: "table to_cht = tt"
  shows "\<exists>w'. move_node_step gh (t, i) to_cht w = Inr w'
     \<and> move_inv w0 w' t n tt m (S(i := rest))
          (if node_dead gh w0 h then D
           else D(node_index gh w0 tt h := h # D (node_index gh w0 tt h)))"
proof -
  let ?b = "(t, i)"
  from inv have neq: "t \<noteq> tt" and nv: "node_value w = node_value w0"
    and hm: "hash_mask (tables w tt) = hash_mask (tables w0 tt)"
    and idx: "\<And>hash. bucket_idx_hash (tables w0 tt) hash < m"
    and src: "\<And>k. k < n \<Longrightarrow> bucket_chain w (t, k) (S k) \<and> get_state (first_raw w (t, k)) = 0 \<and> in_table w (t, k)"
    and dst: "\<And>j. j < m \<Longrightarrow> bucket_chain w (tt, j) (D j) \<and> get_state (first_raw w (tt, j)) = 0 \<and> in_table w (tt, j)"
    and sd: "\<And>k j. k < n \<Longrightarrow> j < m \<Longrightarrow> set (S k) \<inter> set (D j) = {}"
    and ss: "\<And>k l. k < n \<Longrightarrow> l < n \<Longrightarrow> k \<noteq> l \<Longrightarrow> set (S k) \<inter> set (S l) = {}"
    and dd: "\<And>j k. j < m \<Longrightarrow> k < m \<Longrightarrow> j \<noteq> k \<Longrightarrow> set (D j) \<inter> set (D k) = {}"
    by (simp_all add: move_inv_def)
  from src [OF i] Si have bc: "bucket_chain w ?b (h # rest)" and st: "get_state (first_raw w ?b) = 0"
    and inb: "in_table w ?b" by simp_all
  from bc have ch: "chain (node_next w) (first w ?b) (h # rest)" and al: "list_all aligned (h # rest)"
    by (simp_all add: bucket_chain_def)
  from ch have fh: "first w ?b = h" and hn: "h \<noteq> NULL" and cr: "chain (node_next w) (node_next w h) rest"
    by simp_all
  from fh st have raw: "first_raw w ?b = h" by (simp add: first_raw_aligned_first)
  from chain_distinct [OF ch] have hr: "h \<notin> set rest" by simp
  from cr have nh: "node_next w h = (case rest of [] \<Rightarrow> NULL | x # _ \<Rightarrow> x)" by (rule chain_hd)
  with al have anh: "aligned (node_next w h)" by (cases rest) simp_all
  let ?w1 = "set_first_raw w ?b (node_next w h)"
  have cas1: "cas_first w ?b (node_next w h) h = (True, ?w1)"
    using unlocked_state(1) [OF st] raw
    by (simp add: cas_first_def Bucket_cas_first_def is_locked_def)
  have raw1: "first_raw ?w1 ?b = node_next w h"
    using inb by (simp add: first_raw_set_first_raw)
  have st1: "get_state (first_raw ?w1 ?b) = 0"
    using anh by (simp add: raw1 aligned_def)
  have bc1: "bucket_chain ?w1 ?b rest"
    using cr al anh by (simp add: bucket_chain_def first_def raw1 Bucket_first_def aligned_clear_state)
  have oth1: "b' \<noteq> ?b \<Longrightarrow> bucket_chain ?w1 b' ns = bucket_chain w b' ns
      \<and> first_raw ?w1 b' = first_raw w b'" for b' ns
    by (simp add: bucket_chain_set_first_raw_other first_raw_set_first_raw)
  obtain insert_hash dead_hash where gh: "gh (node_value w h) = (insert_hash, dead_hash)"
    by (cases "gh (node_value w h)")
  with nv hm have dead: "node_dead gh w0 h = dead_hash"
    and ix: "node_index gh w0 tt h = bucket_idx_hash (tables w tt) insert_hash"
    by (simp_all add: node_dead_def node_index_def bucket_idx_hash_def)
  show ?thesis
  proof (cases dead_hash)
    case True
    have step: "move_node_step gh ?b to_cht w = Inr ?w1"
      unfolding move_node_step_def using True gh
      by (simp add: fh cas1 Let_def)
    have "move_inv w0 ?w1 t n tt m (S(i := rest)) D"
      unfolding move_inv_def
    proof (intro conjI allI impI)
      show "t \<noteq> tt" by (rule neq)
      show "tsize (tables ?w1 t) = n" using inv by (simp add: move_inv_def)
      show "node_value ?w1 = node_value w0" using nv by simp
      show "hash_mask (tables ?w1 tt) = hash_mask (tables w0 tt)" using hm by simp
      show "events ?w1 = events w0" using inv by (simp add: move_inv_def)
      show "ASSERT ?w1 = ASSERT w0" using inv by (simp add: move_inv_def)
      show "bucket_idx_hash (tables w0 tt) hash < m" for hash by (rule idx)
    next
      fix k assume k: "k < n"
      show "bucket_chain ?w1 (t, k) ((S(i := rest)) k)"
        using src [OF k] bc1 oth1 [of "(t, k)"] by (cases "k = i") simp_all
      show "get_state (first_raw ?w1 (t, k)) = 0"
        using src [OF k] st1 oth1 [of "(t, k)"] by (cases "k = i") simp_all
      show "in_table ?w1 (t, k)" using src [OF k] by simp
    next
      fix j assume j: "j < m"
      show "bucket_chain ?w1 (tt, j) (D j)" using dst [OF j] oth1 [of "(tt, j)"] neq by simp
      show "get_state (first_raw ?w1 (tt, j)) = 0" using dst [OF j] oth1 [of "(tt, j)"] neq by simp
      show "in_table ?w1 (tt, j)" using dst [OF j] by simp
    next
      fix k j assume "k < n" "j < m"
      then show "set ((S(i := rest)) k) \<inter> set (D j) = {}"
        using sd [of k j] sd [of i j] i Si by (cases "k = i") auto
    next
      fix k l assume "k < n" "l < n" "k \<noteq> l"
      then show "set ((S(i := rest)) k) \<inter> set ((S(i := rest)) l) = {}"
        using ss [of k l] ss [of i l] ss [of k i] i Si by auto
    next
      fix j k assume "j < m" "k < m" "j \<noteq> k"
      then show "set (D j) \<inter> set (D k) = {}" by (rule dd)
    qed
    with step True dead show ?thesis by simp
  next
    case False
    let ?j = "bucket_idx_hash (tables w tt) insert_hash"
    let ?ib = "(tt, ?j)"
    have jm: "?j < m" using idx [of insert_hash] hm by (simp add: bucket_idx_hash_def)
    have ibneq: "?ib \<noteq> ?b" using neq by simp
    from dst [OF jm] have bcj: "bucket_chain w ?ib (D ?j)" and stj: "get_state (first_raw w ?ib) = 0"
      and inj: "in_table w ?ib" by simp_all
    have hD: "h \<notin> set (D k)" if "k < m" for k using sd [OF i that] Si by auto
    have hS: "h \<notin> set (S k)" if "k < n" "k \<noteq> i" for k using ss [OF i that(1)] that(2) Si by auto
    have gb: "get_bucket to_cht ?w1 insert_hash = ?ib"
      using unlocked_state(2) [OF stj] oth1 [OF ibneq] tt
      by (simp add: get_bucket_def get_bucket_in_def Let_def have_redirect_def bucket_idx_hash_def)
    have f1: "first ?w1 ?ib = first w ?ib"
      using oth1 [OF ibneq] by (simp add: first_def)
    define v where "v = first w ?ib"
    let ?w2 = "set_next ?w1 h v"
    let ?w3 = "set_first_raw ?w2 ?ib h"
    have raw2: "first_raw ?w2 ?ib = first_raw w ?ib" using oth1 [OF ibneq] by simp
    have f2: "first ?w2 ?ib = first_raw w ?ib"
      using raw2 stj by (simp add: first_def Bucket_first_def aligned_clear_state aligned_def)
    have cas2: "cas_first ?w2 ?ib h (first ?w2 ?ib) = (True, ?w3)"
      using unlocked_state(1) [OF stj] raw2 f2
      by (simp add: cas_first_def Bucket_cas_first_def is_locked_def)
    have asrt: "\<not> have_redirect ?w1 ?b \<and> \<not> is_locked ?w1 ?b"
      using unlocked_state [OF st1] by simp
    have step: "move_node_step gh ?b to_cht w = Inr ?w3"
      unfolding move_node_step_def using False gh
      by (simp add: fh cas1 Let_def gb asrt f1 cas2 flip: v_def)
    have ah: "aligned h" using al by simp
    have raw3: "first_raw ?w3 ?ib = h" using inj by (simp add: first_raw_set_first_raw)
    have chj: "chain (node_next w) (first w ?ib) (D ?j)" and alj: "list_all aligned (D ?j)"
      using bcj by (simp_all add: bucket_chain_def)
    have f3: "first ?w3 ?ib = h"
      unfolding first_def Bucket_first_def raw3 using ah by (simp add: aligned_clear_state)
    have n3: "node_next ?w3 = (node_next w)(h := first w ?ib)" by (simp add: v_def)
    have "chain (node_next ?w3) (first ?w3 ?ib) (h # D ?j)"
      unfolding f3 n3 using chj hn hD [OF jm] by (simp add: chain_upd_notin)
    then have bc3: "bucket_chain ?w3 ?ib (h # D ?j)"
      using alj ah by (simp add: bucket_chain_def)
    have oth3: "bucket_chain ?w3 b' ns = bucket_chain w b' ns \<and> first_raw ?w3 b' = first_raw w b'"
      if "b' \<noteq> ?b" "b' \<noteq> ?ib" "h \<notin> set ns" for b' ns
    proof -
      have "bucket_chain ?w3 b' ns = bucket_chain ?w2 b' ns"
        using that(2) by (rule bucket_chain_set_first_raw_other)
      also have "\<dots> = bucket_chain ?w1 b' ns"
        using that(3) by (rule bucket_chain_set_next_notin)
      also have "\<dots> = bucket_chain w b' ns"
        using that(1) by (rule bucket_chain_set_first_raw_other)
      finally have a: "bucket_chain ?w3 b' ns = bucket_chain w b' ns" .
      have "first_raw ?w3 b' = first_raw ?w2 b'"
        using that(2) by (simp only: first_raw_set_first_raw if_False simp_thms)
      also have "\<dots> = first_raw ?w1 b'" by (simp only: set_next_fields)
      also have "\<dots> = first_raw w b'"
        using that(1) by (simp only: first_raw_set_first_raw if_False simp_thms)
      finally have "first_raw ?w3 b' = first_raw w b'" .
      with a show ?thesis by (rule conjI)
    qed
    have src3: "bucket_chain ?w3 ?b rest \<and> get_state (first_raw ?w3 ?b) = 0"
    proof -
      have "bucket_chain ?w3 ?b rest = bucket_chain ?w2 ?b rest"
        using ibneq [THEN not_sym] by (rule bucket_chain_set_first_raw_other)
      also have "\<dots> = bucket_chain ?w1 ?b rest"
        using hr by (rule bucket_chain_set_next_notin)
      finally have a: "bucket_chain ?w3 ?b rest" using bc1 by simp
      have "first_raw ?w3 ?b = first_raw ?w2 ?b"
        using ibneq [THEN not_sym] by (simp only: first_raw_set_first_raw if_False simp_thms)
      also have "\<dots> = first_raw ?w1 ?b" by (simp only: set_next_fields)
      finally have "get_state (first_raw ?w3 ?b) = 0" using st1 by simp
      with a show ?thesis by (rule conjI)
    qed
    have "move_inv w0 ?w3 t n tt m (S(i := rest)) (D(?j := h # D ?j))"
      unfolding move_inv_def
    proof (intro conjI allI impI)
      show "t \<noteq> tt" by (rule neq)
      show "tsize (tables ?w3 t) = n" using inv by (simp add: move_inv_def)
      show "node_value ?w3 = node_value w0" using nv by simp
      show "hash_mask (tables ?w3 tt) = hash_mask (tables w0 tt)" using hm by simp
      show "events ?w3 = events w0" using inv by (simp add: move_inv_def)
      show "ASSERT ?w3 = ASSERT w0" using inv by (simp add: move_inv_def)
      show "bucket_idx_hash (tables w0 tt) hash < m" for hash by (rule idx)
    next
      fix k assume k: "k < n"
      show "bucket_chain ?w3 (t, k) ((S(i := rest)) k)"
        using src [OF k] src3 oth3 [of "(t, k)" "S k"] hS [OF k] neq by (cases "k = i") simp_all
      show "get_state (first_raw ?w3 (t, k)) = 0"
        using src [OF k] src3 oth3 [of "(t, k)" "[]"] neq by (cases "k = i") simp_all
      show "in_table ?w3 (t, k)" using src [OF k] by simp
    next
      fix j assume j: "j < m"
      show "bucket_chain ?w3 (tt, j) ((D(?j := h # D ?j)) j)"
        using dst [OF j] bc3 oth3 [of "(tt, j)" "D j"] hD [OF j] neq by (cases "j = ?j") simp_all
      show "get_state (first_raw ?w3 (tt, j)) = 0"
        using dst [OF j] raw3 ah oth3 [of "(tt, j)" "[]"] neq
        by (cases "j = ?j") (simp_all add: aligned_def)
      show "in_table ?w3 (tt, j)" using dst [OF j] by simp
    next
      fix k j assume kj: "k < n" "j < m"
      show "set ((S(i := rest)) k) \<inter> set ((D(?j := h # D ?j)) j) = {}"
        using sd [OF kj] sd [OF i kj(2)] sd [OF kj(1) jm] sd [OF i jm] hS [OF kj(1)] hr Si
        by (cases "k = i"; cases "j = ?j") auto
    next
      fix k l assume "k < n" "l < n" "k \<noteq> l"
      then show "set ((S(i := rest)) k) \<inter> set ((S(i := rest)) l) = {}"
        using ss [of k l] ss [of i l] ss [of k i] i Si by auto
    next
      fix j k assume jk: "j < m" "k < m" "j \<noteq> k"
      show "set ((D(?j := h # D ?j)) j) \<inter> set ((D(?j := h # D ?j)) k) = {}"
        using dd [OF jk] hD [OF jk(1)] hD [OF jk(2)] jk(3) by auto
    qed
    with step False dead ix show ?thesis by simp
  qed
qed


lemma move_inv_cong:
  assumes "move_inv w0 w t n tt m S D" and "\<And>i. i < n \<Longrightarrow> S' i = S i" and "\<And>j. j < m \<Longrightarrow> D' j = D j"
  shows "move_inv w0 w t n tt m S' D'"
  using assms unfolding move_inv_def by simp

lemma move_bucket_loop_result:
  assumes "move_inv w0 w t n tt m S D" and "i < n" and "table to_cht = tt" and "S i = rest"
  shows "\<exists>w'. move_bucket_loop gh (t, i) to_cht w = Some (Inr w')
     \<and> move_inv w0 w' t n tt m (S(i := []))
          (\<lambda>j. rev (filter (live_in gh w0 tt j) rest) @ D j)"
  using assms(1,4)
proof (induction rest arbitrary: w S D)
  case Nil
  from Nil.prems assms(2) have "bucket_chain w (t, i) []" by (auto simp: move_inv_def)
  then have "first w (t, i) = NULL" by (simp add: bucket_chain_def)
  then have "move_bucket_loop gh (t, i) to_cht w = Some (Inr w)"
    by (subst move_bucket_loop.simps) simp
  moreover from Nil.prems(1)
  have "move_inv w0 w t n tt m (S(i := [])) (\<lambda>j. rev (filter (live_in gh w0 tt j) []) @ D j)"
    by (rule move_inv_cong) (use Nil.prems(2) in auto)
  ultimately show ?case by blast
next
  case (Cons h rest)
  let ?D1 = "if node_dead gh w0 h then D
           else D(node_index gh w0 tt h := h # D (node_index gh w0 tt h))"
  from move_node_step_result [OF Cons.prems(1) assms(2) Cons.prems(2) assms(3), of gh]
  obtain w1 where st: "move_node_step gh (t, i) to_cht w = Inr w1"
    and inv1: "move_inv w0 w1 t n tt m (S(i := rest)) ?D1"
    by blast
  have si: "(S(i := rest)) i = rest" by simp
  from Cons.IH [OF inv1 si] obtain w' where
    lp: "move_bucket_loop gh (t, i) to_cht w1 = Some (Inr w')"
    and inv': "move_inv w0 w' t n tt m ((S(i := rest))(i := []))
          (\<lambda>j. rev (filter (live_in gh w0 tt j) rest) @ ?D1 j)"
    by blast
  from Cons.prems assms(2) have "bucket_chain w (t, i) (h # rest)" by (auto simp: move_inv_def)
  then have "first w (t, i) \<noteq> NULL" by (simp add: bucket_chain_def)
  then have run: "move_bucket_loop gh (t, i) to_cht w = Some (Inr w')"
    by (subst move_bucket_loop.simps) (simp add: st lp)
  have eq: "rev (filter (live_in gh w0 tt j) (h # rest)) @ D j
      = rev (filter (live_in gh w0 tt j) rest) @ ?D1 j" for j
    by (auto simp: live_in_def)
  from inv' have "move_inv w0 w' t n tt m (S(i := []))
          (\<lambda>j. rev (filter (live_in gh w0 tt j) (h # rest)) @ D j)"
    unfolding fun_upd_upd by (rule move_inv_cong) (simp_all only: eq)
  with run show ?case by blast
qed

lemma move_nodes_loop_result:
  assumes "move_inv w0 w t n tt m S D" and "k \<le> n" and "table to_cht = tt"
  shows "\<exists>w'. move_nodes_loop gh t k to_cht w = Some (Inr w')
     \<and> move_inv w0 w' t n tt m (\<lambda>i. if k \<le> i then [] else S i)
          (\<lambda>j. rev (filter (live_in gh w0 tt j) (concat (map S [k..<n]))) @ D j)"
  using assms(1,2)
proof (induction "n - k" arbitrary: k w S D)
  case 0
  then have kn: "k = n" by simp
  from "0.prems"(1) have "tsize (tables w t) = n" by (simp add: move_inv_def)
  with kn have "move_nodes_loop gh t k to_cht w = Some (Inr w)"
    by (subst move_nodes_loop.simps) simp
  moreover from "0.prems"(1) kn
  have "move_inv w0 w t n tt m (\<lambda>i. if k \<le> i then [] else S i)
          (\<lambda>j. rev (filter (live_in gh w0 tt j) (concat (map S [k..<n]))) @ D j)"
    by (auto intro: move_inv_cong)
  ultimately show ?case by blast
next
  case (Suc d)
  then have kn: "k < n" by simp
  from Suc.prems(1) have sz: "tsize (tables w t) = n" by (simp add: move_inv_def)
  from Suc.prems(1) kn have st: "get_state (first_raw w (t, k)) = 0" by (simp add: move_inv_def)
  let ?D1 = "\<lambda>j. rev (filter (live_in gh w0 tt j) (S k)) @ D j"
  from move_bucket_loop_result [OF Suc.prems(1) kn assms(3) refl, of gh]
  obtain w1 where b: "move_bucket_loop gh (t, k) to_cht w = Some (Inr w1)"
    and inv1: "move_inv w0 w1 t n tt m (S(k := [])) ?D1"
    by blast
  from Suc.hyps(2) kn have d: "d = n - Suc k" by simp
  from Suc.hyps(1) [OF d inv1] kn obtain w' where
    lp: "move_nodes_loop gh t (Suc k) to_cht w1 = Some (Inr w')"
    and inv': "move_inv w0 w' t n tt m (\<lambda>i. if Suc k \<le> i then [] else (S(k := [])) i)
          (\<lambda>j. rev (filter (live_in gh w0 tt j) (concat (map (S(k := [])) [Suc k..<n]))) @ ?D1 j)"
    by auto
  have run: "move_nodes_loop gh t k to_cht w = Some (Inr w')"
    using kn sz unlocked_state [OF st]
    by (subst move_nodes_loop.simps) (simp add: Let_def b lp)
  have m1: "map (S(k := [])) [Suc k..<n] = map S [Suc k..<n]" by simp
  have up: "[k..<n] = k # [Suc k..<n]" using kn by (rule upt_conv_Cons)
  from inv' have "move_inv w0 w' t n tt m (\<lambda>i. if k \<le> i then [] else S i)
          (\<lambda>j. rev (filter (live_in gh w0 tt j) (concat (map S [k..<n]))) @ D j)"
    unfolding m1 up by (rule move_inv_cong) auto
  with run show ?case by blast
qed

text \<open>
  C10. Let the source table hold the chains \<open>S i\<close> and the destination table the chains
  \<open>D j\<close>, both uncontended and without a common node, and let the resize lock of the source
  be free. Then \<^verbatim>\<open>try_move_nodes_to\<close> returns true; every bucket of the source is empty;
  bucket \<open>j\<close> of the destination holds, before its former chain, the nodes of the source that
  are not dead and whose hash has the index \<open>j\<close> (the last moved first); the dead nodes of the
  source are in no bucket of the destination; and nothing was logged: no node was handed to
  \<^verbatim>\<open>Node::destroy_node\<close>.
\<close>

theorem try_move_nodes_to_drops_dead:
  assumes "move_inv w w (table c) n (table to_cht) m S D"
    and "\<not> resize_lock c" and "resize_lock_owner c = NULL"
    and "\<not> ASSERT w \<or> new_table c = NULL \<or> new_table c = POISON_PTR"
  shows "\<exists>c' w'.
     try_move_nodes_to thread gh c to_cht w = Some (Inr (True, c', w'))
     \<and> list_all (\<lambda>i. first w' (table c, i) = NULL) [0..<n]
     \<and> list_all (\<lambda>j. bucket_chain w' (table to_cht, j)
                    (rev (filter (live_in gh w (table to_cht) j) (concat (map S [0..<n]))) @ D j)
                  \<and> list_all (\<lambda>x. \<not> node_dead gh w x)
                      (filter (\<lambda>x. x \<in> set (concat (map S [0..<n])))
                        (rev (filter (live_in gh w (table to_cht) j) (concat (map S [0..<n]))) @ D j)))
          [0..<m]
     \<and> events w' = events w \<and> node_value w' = node_value w"
proof -
  let ?c1 = "c\<lparr>resize_lock := True, invisible_epoch := 0, resize_lock_owner := thread\<rparr>"
  let ?src = "concat (map S [0..<n])"
  have tl: "try_resize_lock (ASSERT w) thread c = Inr (True, ?c1)"
    using assms(2,3) by (simp add: try_resize_lock_def Let_def)
  from move_nodes_loop_result [OF assms(1) _ refl, of 0 gh] obtain w' where
    lp: "move_nodes_loop gh (table c) 0 to_cht w = Some (Inr w')"
    and inv': "move_inv w w' (table c) n (table to_cht) m (\<lambda>i. if 0 \<le> i then [] else S i)
          (\<lambda>j. rev (filter (live_in gh w (table to_cht) j) ?src) @ D j)"
    by auto
  from inv' have as: "ASSERT w' = ASSERT w" and ev: "events w' = events w"
    and nv: "node_value w' = node_value w"
    by (simp_all add: move_inv_def)
  have ul: "unlock_resize_lock (ASSERT w') thread ?c1 =
      Inr (?c1\<lparr>invisible_epoch := 0, resize_lock_owner := NULL, resize_lock := False\<rparr>)"
    by (simp add: unlock_resize_lock_def Let_def)
  have res: "try_move_nodes_to thread gh c to_cht w =
      Some (Inr (True, ?c1\<lparr>invisible_epoch := 0, resize_lock_owner := NULL, resize_lock := False\<rparr>, w'))"
    unfolding try_move_nodes_to_def using assms(4)
    by (auto simp: tl lp ul assert_that_def)
  have empty: "list_all (\<lambda>i. first w' (table c, i) = NULL) [0..<n]"
    using inv' by (auto simp: move_inv_def list_all_iff bucket_chain_def)
  have sd: "i < n \<Longrightarrow> j < m \<Longrightarrow> set (S i) \<inter> set (D j) = {}" for i j
    using assms(1) by (simp add: move_inv_def)
  have dj: "x \<in> set (S i) \<Longrightarrow> i < n \<Longrightarrow> j < m \<Longrightarrow> x \<notin> set (D j)" for x i j
    using sd [of i j] by blast
  have dest: "list_all (\<lambda>j. bucket_chain w' (table to_cht, j)
                    (rev (filter (live_in gh w (table to_cht) j) ?src) @ D j)
                  \<and> list_all (\<lambda>x. \<not> node_dead gh w x)
                      (filter (\<lambda>x. x \<in> set ?src)
                        (rev (filter (live_in gh w (table to_cht) j) ?src) @ D j)))
          [0..<m]"
    using inv' dj by (auto simp: move_inv_def list_all_iff live_in_def)
  from res empty dest ev nv show ?thesis by blast
qed

text \<open>
  An instance: the source table (at 64) has 32 buckets, bucket 0 holding the chain 16, 32, 48
  with the values 32, 2 and 65; the destination table (at 128) has 32 empty buckets; the
  hash of a value is the value, the value 2 is dead.
\<close>

definition move_world :: "nat world" where
  "move_world = \<lparr>ASSERT = True,
     tables = (\<lambda>t. if t = 128 then InternalTable 5
                   else (InternalTable 5)\<lparr>buckets := 16 # replicate 31 NULL\<rparr>),
     table_heap = [],
     node_next = (\<lambda>n. if n = 16 then 32 else if n = 32 then 48 else NULL),
     node_value = (\<lambda>n. if n = 16 then 32 else if n = 32 then 2 else 65),
     events = []\<rparr>"

definition move_cht :: cht where
  "move_cht = \<lparr>table = 64, new_table = NULL, log2_start_size = 5, log2_size_limit = 7,
     grow_hint = 4, size_limit_reached = False, resize_lock = False, resize_lock_owner = NULL,
     invisible_epoch = NULL\<rparr>"

definition move_to_cht :: cht where
  "move_to_cht = \<lparr>table = 128, new_table = NULL, log2_start_size = 5, log2_size_limit = 7,
     grow_hint = 4, size_limit_reached = False, resize_lock = False, resize_lock_owner = NULL,
     invisible_epoch = NULL\<rparr>"

definition move_hash :: "nat \<Rightarrow> 64 word \<times> bool" where
  "move_hash v = (of_nat v, v = 2)"

definition move_chains :: "nat \<Rightarrow> ptr list" where
  "move_chains i = (if i = 0 then [16, 32, 48] else [])"

lemma bucket_idx_hash_InternalTable: "bucket_idx_hash (InternalTable l) hash < 2 ^ l"
proof -
  have "hash AND mask l = take_bit l hash" by (simp only: take_bit_eq_mask)
  then have "unat (hash AND mask l) = take_bit l (unat hash)" by (simp only: unsigned_take_bit_eq)
  then have "unat (hash AND mask l) = unat hash mod 2 ^ l" by (simp only: take_bit_eq_mod)
  then show ?thesis by (simp add: bucket_idx_hash_def hash_mask_InternalTable)
qed

lemma move_world_inv:
  "move_inv move_world move_world (table move_cht) 32 (table move_to_cht) 32 move_chains (\<lambda>_. [])"
  unfolding move_inv_def
proof (intro conjI allI impI)
  show "table move_cht \<noteq> table move_to_cht" by (simp add: move_cht_def move_to_cht_def)
  show "tsize (tables move_world (table move_cht)) = 32"
    by (simp add: move_world_def move_cht_def InternalTable_def)
  show "bucket_idx_hash (tables move_world (table move_to_cht)) hash < 32" for hash
    using bucket_idx_hash_InternalTable [of 5 hash] by (simp add: move_world_def move_to_cht_def)
next
  fix i :: nat assume i: "i < 32"
  have raw: "first_raw move_world (table move_cht, i) = (if i = 0 then 16 else NULL)"
    using i by (simp add: first_raw_def move_world_def move_cht_def nth_Cons')
  show "get_state (first_raw move_world (table move_cht, i)) = 0"
    by (simp add: raw get_state_def STATE_MASK_def)
  show "in_table move_world (table move_cht, i)"
    using i by (simp add: in_table_def move_world_def move_cht_def)
  have cs: "clear_state (16 :: ptr) = 16" "clear_state (0 :: ptr) = 0"
    by (simp_all add: clear_state_def STATE_MASK_def)
  show "bucket_chain move_world (table move_cht, i) (move_chains i)"
    by (simp add: bucket_chain_def first_def raw Bucket_first_def cs move_chains_def aligned_def
        get_state_def STATE_MASK_def) (simp add: move_world_def)
next
  fix j :: nat assume j: "j < 32"
  have raw: "first_raw move_world (table move_to_cht, j) = NULL"
    using j by (simp add: first_raw_def move_world_def move_to_cht_def InternalTable_def)
  show "get_state (first_raw move_world (table move_to_cht, j)) = 0"
    by (simp add: raw get_state_def)
  show "in_table move_world (table move_to_cht, j)"
    using j by (simp add: in_table_def move_world_def move_to_cht_def InternalTable_def)
  show "bucket_chain move_world (table move_to_cht, j) []"
    by (simp add: bucket_chain_def first_def raw Bucket_first_def clear_state_def)
next
  fix i k :: nat assume "i \<noteq> k"
  then show "set (move_chains i) \<inter> set (move_chains k) = {}" by (auto simp: move_chains_def)
qed simp_all

lemma move_chains_concat: "concat (map move_chains [0..<32]) = [16, 32, 48]"
proof -
  have "[0..<32] = 0 # [Suc 0..<32]" by (rule upt_conv_Cons) simp
  moreover have "concat (map move_chains [Suc 0..<32]) = []" by (simp add: move_chains_def)
  ultimately show ?thesis by (simp add: move_chains_def)
qed

theorem try_move_nodes_to_drops_dead_witness:
  "move_inv move_world move_world (table move_cht) 32 (table move_to_cht) 32 move_chains (\<lambda>_. [])
   \<and> \<not> resize_lock move_cht \<and> resize_lock_owner move_cht = NULL \<and> new_table move_cht = NULL
   \<and> node_dead move_hash move_world 32
   \<and> (\<exists>c' w'. try_move_nodes_to 1000 move_hash move_cht move_to_cht move_world
                   = Some (Inr (True, c', w'))
          \<and> first w' (64, 0) = NULL
          \<and> bucket_chain w' (128, 0) [16]
          \<and> bucket_chain w' (128, 1) [48]
          \<and> bucket_chain w' (128, 2) []
          \<and> events w' = [])"
proof -
  have a: "\<not> resize_lock move_cht" "resize_lock_owner move_cht = NULL" "new_table move_cht = NULL"
    by (simp_all add: move_cht_def)
  then have b: "\<not> ASSERT move_world \<or> new_table move_cht = NULL \<or> new_table move_cht = POISON_PTR"
    by simp
  have dead: "node_dead move_hash move_world 32"
    by (simp add: node_dead_def move_hash_def move_world_def)
  have t: "table move_cht = 64" "table move_to_cht = 128"
    by (simp_all add: move_cht_def move_to_cht_def)
  have f: "filter (live_in move_hash move_world 128 0) [16, 32, 48] = [16]"
    "filter (live_in move_hash move_world 128 1) [16, 32, 48] = [48]"
    "filter (live_in move_hash move_world 128 2) [16, 32, 48] = []"
    "events move_world = []"
    by (simp_all add: live_in_def node_dead_def node_index_def move_hash_def bucket_idx_hash_def
        move_world_def hash_mask_InternalTable mask_eq_exp_minus_1)
  from try_move_nodes_to_drops_dead [OF move_world_inv a(1,2) b, of 1000 move_hash]
  obtain c' w' where r: "try_move_nodes_to 1000 move_hash move_cht move_to_cht move_world
                   = Some (Inr (True, c', w'))"
    and src: "list_all (\<lambda>i. first w' (64, i) = NULL) [0..<32]"
    and dst: "list_all (\<lambda>j. bucket_chain w' (128, j)
                    (rev (filter (live_in move_hash move_world 128 j) [16, 32, 48]) @ []))
          [0..<32]"
    and ev: "events w' = []"
    unfolding move_chains_concat t f by (auto simp: list_all_iff)
  from src have s0: "first w' (64, 0) = NULL" by (simp add: list_all_iff)
  from dst have "bucket_chain w' (128, 0) (rev (filter (live_in move_hash move_world 128 0) [16, 32, 48]) @ [])"
    "bucket_chain w' (128, 1) (rev (filter (live_in move_hash move_world 128 1) [16, 32, 48]) @ [])"
    "bucket_chain w' (128, 2) (rev (filter (live_in move_hash move_world 128 2) [16, 32, 48]) @ [])"
    by (simp_all add: list_all_iff)
  then have d: "bucket_chain w' (128, 0) [16]" "bucket_chain w' (128, 1) [48]" "bucket_chain w' (128, 2) []"
    unfolding f by simp_all
  from r s0 d ev have "\<exists>c' w'. try_move_nodes_to 1000 move_hash move_cht move_to_cht move_world
                   = Some (Inr (True, c', w'))
          \<and> first w' (64, 0) = NULL
          \<and> bucket_chain w' (128, 0) [16]
          \<and> bucket_chain w' (128, 1) [48]
          \<and> bucket_chain w' (128, 2) []
          \<and> events w' = []"
    by blast
  with move_world_inv a dead show ?thesis by (intro conjI)
qed

section \<open>Bulk delete\<close>

text \<open>A list without the first \<open>k\<close> of its elements that satisfy \<open>P\<close>.\<close>

fun without_first :: "nat \<Rightarrow> ('a \<Rightarrow> bool) \<Rightarrow> 'a list \<Rightarrow> 'a list" where
  "without_first k P [] = []"
| "without_first k P (x # xs) =
     (if k = 0 then x # xs
      else if P x then without_first (k - 1) P xs
      else x # without_first k P xs)"

lemma without_first_0 [simp]: "without_first 0 P xs = xs"
  by (cases xs) simp_all

lemma without_first_subset: "set (without_first k P xs) \<subseteq> set xs"
  by (induction xs arbitrary: k) auto

lemma without_first_all:
  "length (filter P xs) \<le> k \<Longrightarrow> without_first k P xs = filter (\<lambda>x. \<not> P x) xs"
proof (induction xs arbitrary: k)
  case Nil
  show ?case by simp
next
  case (Cons x xs)
  show ?case
  proof (cases "P x")
    case True
    with Cons.prems have "length (filter P xs) \<le> k - 1" and "k \<noteq> 0" by simp_all
    with Cons.IH [of "k - 1"] True show ?thesis by simp
  next
    case False
    with Cons.prems have "length (filter P xs) \<le> k" by simp
    from Cons.IH [OF this] False have "x # without_first k P xs = filter (\<lambda>x. \<not> P x) (x # xs)"
      by simp
    moreover have "k = 0 \<Longrightarrow> without_first k P xs = xs" by simp
    ultimately show ?thesis using False by (cases "k = 0") simp_all
  qed
qed

lemma without_first_take:
  "distinct xs \<Longrightarrow> without_first k P xs = filter (\<lambda>x. x \<notin> set (take k (filter P xs))) xs"
proof (induction xs arbitrary: k)
  case Nil
  show ?case by simp
next
  case (Cons x xs)
  from Cons.prems have d: "distinct xs" and x: "x \<notin> set xs" by simp_all
  have sub: "set (take j (filter P xs)) \<subseteq> set xs" for j
    using set_take_subset [of j "filter P xs"] by auto
  show ?case
  proof (cases k)
    case 0
    then show ?thesis by simp
  next
    case (Suc j)
    show ?thesis
    proof (cases "P x")
      case True
      have "filter (\<lambda>y. y \<notin> set (take (Suc j) (filter P (x # xs)))) (x # xs)
          = filter (\<lambda>y. y \<noteq> x \<and> y \<notin> set (take j (filter P xs))) xs"
        using True by simp
      also have "\<dots> = filter (\<lambda>y. y \<notin> set (take j (filter P xs))) xs"
        using x by (intro filter_cong) auto
      finally show ?thesis using True Suc Cons.IH [OF d, of j] by simp
    next
      case False
      have "x \<notin> set (take (Suc j) (filter P xs))" using sub [of "Suc j"] x by auto
      with False Suc Cons.IH [OF d, of "Suc j"] show ?thesis by simp
    qed
  qed
qed

lemma have_deletable_loop_chain:
  "chain (node_next w) p ns \<Longrightarrow>
   have_deletable_loop w eval_f p = Some (list_ex (\<lambda>n. eval_f (node_value w n)) ns)"
proof (induction ns arbitrary: p)
  case Nil
  then show ?case by (subst have_deletable_loop.simps) simp
next
  case (Cons h t)
  then have "p = h" "h \<noteq> NULL" "chain (node_next w) (node_next w h) t" by simp_all
  with Cons.IH [of "node_next w h"] show ?case
    by (subst have_deletable_loop.simps) simp
qed

lemma have_deletable_chain:
  "bucket_chain w b ns \<Longrightarrow>
   have_deletable w b eval_f = Some (list_ex (\<lambda>n. eval_f (node_value w n)) ns)"
  by (simp add: have_deletable_def bucket_chain_def have_deletable_loop_chain)

lemma lock_unlocked:
  assumes "get_state (first_raw w b) = 0"
  shows "lock w b = Some (Inr (set_first_raw w b (set_state (first_raw w b) STATE_LOCK_BIT)))"
proof -
  from assms have bits: "\<not> bit (first_raw w b) 0" "\<not> bit (first_raw w b) 1"
    by (simp_all add: get_state_0_iff)
  from assms have cl: "clear_state (first_raw w b) = first_raw w b"
    by (simp add: aligned_clear_state aligned_def)
  have "Bucket_trylock (first_raw w b) = (True, set_state (first_raw w b) STATE_LOCK_BIT)"
    using bits cl by (simp add: Bucket_trylock_def is_locked_iff Bucket_first_def Let_def)
  then have "Bucket_lock (first_raw w b) 0 = Some (set_state (first_raw w b) STATE_LOCK_BIT)"
    by (subst Bucket_lock.simps) simp
  then show ?thesis by (simp add: lock_def)
qed

lemma splice_out_tsize [simp]:
  "tsize (tables (splice_out w b kept h) t) = tsize (tables w t)"
  by (cases "kept = []") (simp_all add: splice_out_def slot_after_def set_first_raw_def)

lemma delete_nodes_fields [simp]:
  "node_value (delete_nodes w ns) = node_value w"
  "node_next (delete_nodes w ns) = node_next w"
  "tables (delete_nodes w ns) = tables w"
  "ASSERT (delete_nodes w ns) = ASSERT w"
  "destroyed (events (delete_nodes w ns)) = destroyed (events w) @ ns"
  by (induction ns arbitrary: w) simp_all

lemma delete_nodes_chain [simp]:
  "bucket_chain (delete_nodes w ns) b ms = bucket_chain w b ms"
  "first_raw (delete_nodes w ns) b = first_raw w b"
  "in_table (delete_nodes w ns) b = in_table w b"
  by (simp_all add: bucket_chain_def first_def first_raw_def in_table_def)

text \<open>
  What a step of the bulk delete leaves as it was, apart from the links of one bucket: the
  values, the build flag, the nodes destroyed so far, the size of every table, and of every
  bucket its place in its table and its two flags.
\<close>

definition same_frame :: "'v world \<Rightarrow> 'v world \<Rightarrow> bool" where
  "same_frame w w' \<longleftrightarrow>
     node_value w' = node_value w \<and> ASSERT w' = ASSERT w
     \<and> (\<forall>t. tsize (tables w' t) = tsize (tables w t))
     \<and> (\<forall>b'. in_table w' b' = in_table w b'
            \<and> get_state (first_raw w' b') = get_state (first_raw w b'))"

lemma same_frame_refl [simp]: "same_frame w w"
  by (simp add: same_frame_def)

lemma same_frame_trans: "same_frame w w1 \<Longrightarrow> same_frame w1 w2 \<Longrightarrow> same_frame w w2"
  by (simp add: same_frame_def)

lemma same_frame_splice:
  "same_frame w (log_event e (splice_out w b kept h))"
  by (simp add: same_frame_def splice_out_state)

lemma delete_check_nodes_loop_chain:
  assumes "bucket_chain w b (kept @ rest)" and "in_table w b" and "is_locked w b"
    and "length ndel < num_del"
  shows "\<exists>w'. delete_check_nodes_loop w b eval_f num_del (slot_after b kept)
                (case rest of [] \<Rightarrow> NULL | x # _ \<Rightarrow> x) ndel
           = Some (Inr (ndel @ take (num_del - length ndel)
                                 (filter (\<lambda>n. eval_f (node_value w n)) rest), w'))
     \<and> bucket_chain w' b
          (kept @ without_first (num_del - length ndel) (\<lambda>n. eval_f (node_value w n)) rest)
     \<and> same_frame w w'
     \<and> destroyed (events w') = destroyed (events w)
     \<and> (\<forall>b' ms. b' \<noteq> b \<longrightarrow> bucket_chain w b' ms \<longrightarrow> set ms \<inter> set (kept @ rest) = {}
           \<longrightarrow> bucket_chain w' b' ms)"
  using assms
proof (induction rest arbitrary: w kept ndel)
  case Nil
  have "delete_check_nodes_loop w b eval_f num_del (slot_after b kept) NULL ndel = Some (Inr (ndel, w))"
    by (subst delete_check_nodes_loop.simps) simp
  with Nil.prems(1) show ?case by simp
next
  case (Cons h t)
  let ?P = "\<lambda>n. eval_f (node_value w n)"
  let ?k = "num_del - length ndel"
  from Cons.prems(1) have ch: "chain (node_next w) (first w b) (kept @ h # t)"
    by (simp add: bucket_chain_def)
  then have hn: "h \<noteq> NULL" by (auto dest: chain_suffix)
  from ch have nh: "node_next w h = (case t of [] \<Rightarrow> NULL | x # _ \<Rightarrow> x)" by (rule chain_next_hd)
  from chain_distinct [OF ch] have hk: "h \<notin> set kept" and ht: "h \<notin> set t" by simp_all
  from Cons.prems(4) have k: "?k = Suc (num_del - Suc (length ndel))" by simp
  show ?case
  proof (cases "?P h")
    case True
    let ?w1 = "log_event (Release_assign (slot_after b kept) (node_next w h)) (splice_out w b kept h)"
    have ra: "release_assign_node_ptr w b (slot_after b kept) (node_next w h) = Inr ?w1"
      using Cons.prems(3) by (rule release_assign_locked)
    from splice_out_chain [OF Cons.prems(1,2)]
    have bc1: "bucket_chain ?w1 b (kept @ t)" by simp
    have fr1: "same_frame w ?w1" by (rule same_frame_splice)
    have ev1: "destroyed (events ?w1) = destroyed (events w)" by simp
    have nv1: "node_value ?w1 = node_value w" by simp
    have oth1: "bucket_chain ?w1 b' ms"
      if "b' \<noteq> b" "bucket_chain w b' ms" "set ms \<inter> set (kept @ h # t) = {}" for b' ms
    proof -
      from that(3) have "kept \<noteq> [] \<longrightarrow> last kept \<notin> set ms"
        using last_in_set [of kept] by auto
      from splice_out_other [OF that(2,1) this] show ?thesis by simp
    qed
    show ?thesis
    proof (cases "Suc (length ndel) = num_del")
      case last: True
      have run: "delete_check_nodes_loop w b eval_f num_del (slot_after b kept) h ndel
          = Some (Inr (ndel @ [h], ?w1))"
        using True hn last by (subst delete_check_nodes_loop.simps) (simp add: ra)
      from last have k1: "?k = Suc 0" by simp
      have "ndel @ take ?k (filter ?P (h # t)) = ndel @ [h]"
        "kept @ without_first ?k ?P (h # t) = kept @ t"
        unfolding k1 using True by simp_all
      with run bc1 fr1 ev1 oth1 show ?thesis by simp
    next
      case more: False
      with Cons.prems(4) have lt: "length (ndel @ [h]) < num_del" by simp
      have nx: "node_next (splice_out w b kept h) h = (case t of [] \<Rightarrow> NULL | x # _ \<Rightarrow> x)"
        using splice_out_next [OF hk, of w b h] nh by simp
      have in1: "in_table ?w1 b" using Cons.prems(2) by simp
      have lk1: "is_locked ?w1 b" using Cons.prems(3) by simp
      from Cons.IH [OF bc1 in1 lk1 lt, unfolded nv1] obtain w' where
        r: "delete_check_nodes_loop ?w1 b eval_f num_del (slot_after b kept)
              (case t of [] \<Rightarrow> NULL | x # _ \<Rightarrow> x) (ndel @ [h])
            = Some (Inr ((ndel @ [h]) @ take (num_del - length (ndel @ [h])) (filter ?P t), w'))"
        and bc: "bucket_chain w' b (kept @ without_first (num_del - length (ndel @ [h])) ?P t)"
        and fr: "same_frame ?w1 w'"
        and ev: "destroyed (events w') = destroyed (events ?w1)"
        and oth: "\<And>b' ms. b' \<noteq> b \<Longrightarrow> bucket_chain ?w1 b' ms \<Longrightarrow> set ms \<inter> set (kept @ t) = {}
           \<Longrightarrow> bucket_chain w' b' ms"
        by blast
      have run: "delete_check_nodes_loop w b eval_f num_del (slot_after b kept) h ndel
          = Some (Inr ((ndel @ [h]) @ take (num_del - length (ndel @ [h])) (filter ?P t), w'))"
        using True hn more
        by (subst delete_check_nodes_loop.simps) (simp add: ra nx r)
      have e1: "(ndel @ [h]) @ take (num_del - length (ndel @ [h])) (filter ?P t)
          = ndel @ take ?k (filter ?P (h # t))"
        unfolding k using True by simp
      have e2: "kept @ without_first (num_del - length (ndel @ [h])) ?P t
          = kept @ without_first ?k ?P (h # t)"
        unfolding k using True by simp
      have oth': "bucket_chain w' b' ms"
        if "b' \<noteq> b" "bucket_chain w b' ms" "set ms \<inter> set (kept @ h # t) = {}" for b' ms
      proof -
        from that(3) have "set ms \<inter> set (kept @ t) = {}" by auto
        with oth [OF that(1) oth1 [OF that]] show ?thesis .
      qed
      from run bc same_frame_trans [OF fr1 fr] ev ev1 oth' show ?thesis
        unfolding e1 e2 by simp
    qed
  next
    case False
    from Cons.prems(1) have bc1: "bucket_chain w b ((kept @ [h]) @ t)" by simp
    from Cons.IH [OF bc1 Cons.prems(2,3,4)] obtain w' where
      r: "delete_check_nodes_loop w b eval_f num_del (slot_after b (kept @ [h]))
              (case t of [] \<Rightarrow> NULL | x # _ \<Rightarrow> x) ndel
            = Some (Inr (ndel @ take ?k (filter ?P t), w'))"
      and bc: "bucket_chain w' b ((kept @ [h]) @ without_first ?k ?P t)"
      and fr: "same_frame w w'"
      and ev: "destroyed (events w') = destroyed (events w)"
      and oth: "\<And>b' ms. b' \<noteq> b \<Longrightarrow> bucket_chain w b' ms \<Longrightarrow> set ms \<inter> set ((kept @ [h]) @ t) = {}
           \<Longrightarrow> bucket_chain w' b' ms"
      by blast
    have sl: "slot_after b (kept @ [h]) = Next_ptr h" by (simp add: slot_after_def)
    have run: "delete_check_nodes_loop w b eval_f num_del (slot_after b kept) h ndel
          = Some (Inr (ndel @ take ?k (filter ?P t), w'))"
      using False hn by (subst delete_check_nodes_loop.simps) (simp add: nh r [unfolded sl])
    have e2: "(kept @ [h]) @ without_first ?k ?P t = kept @ without_first ?k ?P (h # t)"
      using False Cons.prems(4) by simp
    have oth': "bucket_chain w' b' ms"
      if "b' \<noteq> b" "bucket_chain w b' ms" "set ms \<inter> set (kept @ h # t) = {}" for b' ms
      using oth [OF that(1,2)] that(3) by simp
    from run bc [unfolded e2] fr ev oth' False show ?thesis by simp
  qed
qed

text \<open>
  The table \<open>t\<close> with \<open>n\<close> buckets holding the chains \<open>S i\<close>: all buckets unlocked and not
  redirected, no node in two chains, the values those of \<open>w0\<close>.
\<close>

definition bulk_inv :: "'v world \<Rightarrow> 'v world \<Rightarrow> ptr \<Rightarrow> nat \<Rightarrow> (nat \<Rightarrow> ptr list) \<Rightarrow> bool" where
  "bulk_inv w0 w t n S \<longleftrightarrow>
     tsize (tables w t) = n \<and> node_value w = node_value w0 \<and> ASSERT w = ASSERT w0
     \<and> (\<forall>i<n. bucket_chain w (t, i) (S i) \<and> get_state (first_raw w (t, i)) = 0 \<and> in_table w (t, i))
     \<and> (\<forall>i<n. \<forall>k<n. i \<noteq> k \<longrightarrow> set (S i) \<inter> set (S k) = {})"

lemma bulk_inv_cong:
  assumes "bulk_inv w0 w t n S" and "\<And>i. i < n \<Longrightarrow> S' i = S i"
  shows "bulk_inv w0 w t n S'"
  using assms unfolding bulk_inv_def by simp

lemma unlock_locked:
  assumes "bit (first_raw w b) 0" and "\<not> bit (first_raw w b) 1"
  shows "unlock w b = Inr (set_first_raw w b (clear_state (first_raw w b)))"
  using assms
  by (simp add: unlock_def Bucket_unlock_def is_locked_iff have_redirect_iff Bucket_first_def
      clear_state_idem)

lemma do_bulk_delete_bucket_result:
  assumes inv: "bulk_inv w0 w t n S" and i: "i < n"
    and own: "resize_lock_owner c = thread"
    and ep: "invisible_epoch c = NULL \<or> invisible_epoch c = thread"
  shows "\<exists>c' w'. do_bulk_delete_bucket thread t i eval_f False c w = Some (Inr (c', w'))
     \<and> bulk_inv w0 w' t n
          (S(i := without_first BULK_DELETE_LIMIT (\<lambda>x. eval_f (node_value w0 x)) (S i)))
     \<and> (c' = c \<or> c' = c\<lparr>invisible_epoch := thread\<rparr>)
     \<and> destroyed (events w')
         = destroyed (events w) @ take BULK_DELETE_LIMIT (filter (\<lambda>x. eval_f (node_value w0 x)) (S i))"
proof -
  let ?b = "(t, i)"
  let ?P = "\<lambda>x. eval_f (node_value w0 x)"
  let ?L = "BULK_DELETE_LIMIT"
  from inv have sz: "tsize (tables w t) = n" and nv: "node_value w = node_value w0"
    and as: "ASSERT w = ASSERT w0"
    and src: "\<And>k. k < n \<Longrightarrow> bucket_chain w (t, k) (S k) \<and> get_state (first_raw w (t, k)) = 0 \<and> in_table w (t, k)"
    and ss: "\<And>k l. k < n \<Longrightarrow> l < n \<Longrightarrow> k \<noteq> l \<Longrightarrow> set (S k) \<inter> set (S l) = {}"
    by (simp_all add: bulk_inv_def)
  from src [OF i] have bc: "bucket_chain w ?b (S i)" and st: "get_state (first_raw w ?b) = 0"
    and inb: "in_table w ?b" by simp_all
  have hd: "have_deletable w ?b eval_f = Some (list_ex ?P (S i))"
    using have_deletable_chain [OF bc, of eval_f] by (simp add: nv)
  show ?thesis
  proof (cases "list_ex ?P (S i)")
    case False
    then have none: "filter ?P (S i) = []" by (auto simp: list_ex_iff filter_empty_conv)
    then have "length (filter ?P (S i)) \<le> ?L" by simp
    from without_first_all [OF this] False have "without_first ?L ?P (S i) = S i"
      by (auto simp: list_ex_iff filter_id_conv)
    then have "S(i := without_first ?L ?P (S i)) = S" by simp
    moreover have "do_bulk_delete_bucket thread t i eval_f False c w = Some (Inr (c, w))"
      using False by (simp add: do_bulk_delete_bucket_def hd)
    ultimately show ?thesis using inv none by simp
  next
    case True
    let ?raw = "first_raw w ?b"
    let ?w1 = "log_event (Critical_section_end thread) w"
    let ?w2 = "set_first_raw ?w1 ?b (set_state ?raw STATE_LOCK_BIT)"
    from st have bits: "\<not> bit ?raw 0" "\<not> bit ?raw 1" by (simp_all add: get_state_0_iff)
    from st have cl: "clear_state ?raw = ?raw" by (simp add: aligned_clear_state aligned_def)
    have lk: "lock ?w1 ?b = Some (Inr ?w2)"
      using lock_unlocked [of ?w1 ?b] st by simp
    have raw2: "first_raw ?w2 ?b = set_state ?raw STATE_LOCK_BIT"
      using inb by (simp add: first_raw_set_first_raw)
    have lk2: "is_locked ?w2 ?b"
      by (simp add: is_locked_def raw2 is_locked_iff bit_set_state bit_STATE_LOCK_BIT)
    have f2: "first ?w2 ?b = first w ?b"
      by (simp add: first_def raw2 Bucket_first_def clear_state_set_lock)
    have in2: "in_table ?w2 ?b" using inb by simp
    have nv2: "node_value ?w2 = node_value w0" using nv by simp
    have bc2: "bucket_chain ?w2 ?b ([] @ S i)"
      using bc f2 by (simp add: bucket_chain_def)
    have hd2: "first w ?b = (case S i of [] \<Rightarrow> NULL | x # _ \<Rightarrow> x)"
      using bc by (auto simp: bucket_chain_def dest: chain_hd)
    have lim: "length ([] :: ptr list) < ?L" by (simp add: BULK_DELETE_LIMIT_def)
    from delete_check_nodes_loop_chain [OF bc2 in2 lk2 lim, of eval_f, unfolded nv2]
    obtain w3 where
      dc: "delete_check_nodes_loop ?w2 ?b eval_f ?L (slot_after ?b [])
              (case S i of [] \<Rightarrow> NULL | x # _ \<Rightarrow> x) []
            = Some (Inr ([] @ take (?L - length ([] :: ptr list)) (filter ?P (S i)), w3))"
      and bc3: "bucket_chain w3 ?b ([] @ without_first (?L - length ([] :: ptr list)) ?P (S i))"
      and fr3: "same_frame ?w2 w3"
      and ev3: "destroyed (events w3) = destroyed (events ?w2)"
      and oth3: "\<And>b' ms. b' \<noteq> ?b \<Longrightarrow> bucket_chain ?w2 b' ms \<Longrightarrow> set ms \<inter> set ([] @ S i) = {}
           \<Longrightarrow> bucket_chain w3 b' ms"
      by blast
    let ?ndel = "take ?L (filter ?P (S i))"
    let ?rest = "without_first ?L ?P (S i)"
    have dcn: "delete_check_nodes ?w2 ?b eval_f ?L = Some (Inr (?ndel, w3))"
      using dc by (simp add: delete_check_nodes_def f2 hd2 slot_after_def)
    from bc3 have bc3': "bucket_chain w3 ?b ?rest" by simp
    from fr3 have nv3: "node_value w3 = node_value w0" and as3: "ASSERT w3 = ASSERT w0"
      and sz3: "tsize (tables w3 t) = n"
      using nv as sz by (simp_all add: same_frame_def)
    have in3: "in_table w3 b' = in_table w b'" for b'
      using fr3 by (cases b') (simp add: same_frame_def)
    have gs3: "get_state (first_raw w3 b') = get_state (first_raw ?w2 b')" for b'
      using fr3 by (cases b') (simp add: same_frame_def)
    have "get_state (first_raw w3 ?b) = get_state (set_state ?raw STATE_LOCK_BIT)"
      by (simp only: gs3 raw2)
    from get_state_eq_bits [OF this] bits
    have b3: "bit (first_raw w3 ?b) 0" "\<not> bit (first_raw w3 ?b) 1"
      by (simp_all only: bit_set_state bit_STATE_LOCK_BIT) simp_all
    let ?w4 = "set_first_raw w3 ?b (clear_state (first_raw w3 ?b))"
    have un: "unlock w3 ?b = Inr ?w4" using b3 by (rule unlock_locked)
    have inb3: "in_table w3 ?b" using inb by (simp add: in3)
    have "first ?w4 ?b = first w3 ?b"
      using inb3 by (simp add: first_def Bucket_first_def first_raw_set_first_raw clear_state_idem)
    then have bc4: "bucket_chain ?w4 ?b ?rest"
      using bc3' by (simp add: bucket_chain_def)
    have st4: "get_state (first_raw ?w4 ?b) = 0"
      using inb3 by (simp add: first_raw_set_first_raw get_state_0_iff bit_clear_state)
    let ?c5 = "c\<lparr>invisible_epoch := thread\<rparr>"
    let ?w5 = "if invisible_epoch c = thread then ?w4
               else log_event Write_synchronize (log_event (Release_store_invisible_epoch thread) ?w4)"
    have ws: "write_synchonize_on_visible_epoch thread c ?w4 = Inr (?c5, ?w5)"
      using ep by (intro write_synchonize_result own) simp
    let ?w7 = "log_event (Critical_section_begin thread) (delete_nodes ?w5 ?ndel)"
    have run: "do_bulk_delete_bucket thread t i eval_f False c w = Some (Inr (?c5, ?w7))"
      using True unfolding do_bulk_delete_bucket_def
      by (simp add: hd lk dcn un ws Let_def del: bindE_simps)
    have ev7: "destroyed (events ?w7) = destroyed (events w) @ ?ndel"
      using ev3 by simp
    have other: "bucket_chain ?w7 (t, k) (S k) \<and> get_state (first_raw ?w7 (t, k)) = 0"
      if k: "k < n" and ki: "k \<noteq> i" for k
    proof -
      have ne: "(t, k) \<noteq> ?b" using ki by simp
      from src [OF k] have "bucket_chain ?w2 (t, k) (S k)"
        using ne by (simp add: bucket_chain_set_first_raw_other)
      moreover have "set (S k) \<inter> set ([] @ S i) = {}" using ss [OF k i ki] by simp
      ultimately have "bucket_chain w3 (t, k) (S k)" by (rule oth3 [OF ne])
      then have a: "bucket_chain ?w7 (t, k) (S k)"
        using ne by (simp add: bucket_chain_set_first_raw_other)
      have "get_state (first_raw w3 (t, k)) = 0"
        using src [OF k] ne by (simp add: gs3 first_raw_set_first_raw)
      then have "get_state (first_raw ?w7 (t, k)) = 0"
        using ne by (simp add: first_raw_set_first_raw)
      with a show ?thesis by (rule conjI)
    qed
    have "bulk_inv w0 ?w7 t n (S(i := ?rest))"
      unfolding bulk_inv_def
    proof (intro conjI allI impI)
      show "tsize (tables ?w7 t) = n" using sz3 by simp
      show "node_value ?w7 = node_value w0" using nv3 by simp
      show "ASSERT ?w7 = ASSERT w0" using as3 by simp
    next
      fix k assume k: "k < n"
      show "bucket_chain ?w7 (t, k) ((S(i := ?rest)) k)"
        using other [OF k] bc4 by (cases "k = i") simp_all
      show "get_state (first_raw ?w7 (t, k)) = 0"
        using other [OF k] st4 by (cases "k = i") simp_all
      show "in_table ?w7 (t, k)" using src [OF k] by (simp add: in3)
    next
      fix k l assume kl: "k < n" "l < n" "k \<noteq> l"
      have sub: "set ?rest \<subseteq> set (S i)" by (rule without_first_subset)
      show "set ((S(i := ?rest)) k) \<inter> set ((S(i := ?rest)) l) = {}"
        using ss [OF kl] ss [OF i kl(2)] ss [OF kl(1) i] sub kl(3) by (auto split: if_splits)
    qed
    with run ev7 show ?thesis by blast
  qed
qed

lemma do_bulk_delete_loop_result:
  assumes "bulk_inv w0 w t n S" and "k \<le> n"
    and "resize_lock_owner c = thread"
    and "invisible_epoch c = NULL \<or> invisible_epoch c = thread"
  shows "\<exists>c' w'. do_bulk_delete_loop thread t k n eval_f False c w = Some (Inr (c', w'))
     \<and> bulk_inv w0 w' t n
          (\<lambda>i. if k \<le> i then without_first BULK_DELETE_LIMIT (\<lambda>x. eval_f (node_value w0 x)) (S i)
                else S i)
     \<and> (c' = c \<or> c' = c\<lparr>invisible_epoch := thread\<rparr>)
     \<and> destroyed (events w')
         = destroyed (events w) @
           concat (map (\<lambda>i. take BULK_DELETE_LIMIT (filter (\<lambda>x. eval_f (node_value w0 x)) (S i)))
                     [k..<n])"
  using assms
proof (induction "n - k" arbitrary: k w S c)
  case 0
  then have kn: "k = n" by simp
  then have "do_bulk_delete_loop thread t k n eval_f False c w = Some (Inr (c, w))"
    by (subst do_bulk_delete_loop.simps) simp
  moreover from "0.prems"(1)
  have "bulk_inv w0 w t n
          (\<lambda>i. if k \<le> i then without_first BULK_DELETE_LIMIT (\<lambda>x. eval_f (node_value w0 x)) (S i)
                else S i)"
    by (rule bulk_inv_cong) (simp add: kn)
  ultimately show ?case using kn by simp
next
  case (Suc d)
  let ?P = "\<lambda>x. eval_f (node_value w0 x)"
  let ?L = "BULK_DELETE_LIMIT"
  from Suc.hyps(2) have kn: "k < n" and d: "d = n - Suc k" and le: "Suc k \<le> n" by simp_all
  from do_bulk_delete_bucket_result [OF Suc.prems(1) kn Suc.prems(3,4), of eval_f]
  obtain c1 w1 where
    st: "do_bulk_delete_bucket thread t k eval_f False c w = Some (Inr (c1, w1))"
    and inv1: "bulk_inv w0 w1 t n (S(k := without_first ?L ?P (S k)))"
    and c1: "c1 = c \<or> c1 = c\<lparr>invisible_epoch := thread\<rparr>"
    and ev1: "destroyed (events w1) = destroyed (events w) @ take ?L (filter ?P (S k))"
    by blast
  from c1 Suc.prems(3,4) have own1: "resize_lock_owner c1 = thread"
    and ep1: "invisible_epoch c1 = NULL \<or> invisible_epoch c1 = thread" by auto
  from Suc.hyps(1) [OF d inv1 le own1 ep1] obtain c' w' where
    lp: "do_bulk_delete_loop thread t (Suc k) n eval_f False c1 w1 = Some (Inr (c', w'))"
    and inv': "bulk_inv w0 w' t n
          (\<lambda>i. if Suc k \<le> i then without_first ?L ?P ((S(k := without_first ?L ?P (S k))) i)
                else (S(k := without_first ?L ?P (S k))) i)"
    and c': "c' = c1 \<or> c' = c1\<lparr>invisible_epoch := thread\<rparr>"
    and ev': "destroyed (events w')
         = destroyed (events w1) @
           concat (map (\<lambda>i. take ?L (filter ?P ((S(k := without_first ?L ?P (S k))) i))) [Suc k..<n])"
    by blast
  have run: "do_bulk_delete_loop thread t k n eval_f False c w = Some (Inr (c', w'))"
    using kn by (subst do_bulk_delete_loop.simps) (simp add: st lp)
  from inv' have inv: "bulk_inv w0 w' t n (\<lambda>i. if k \<le> i then without_first ?L ?P (S i) else S i)"
    by (rule bulk_inv_cong) auto
  have cc: "c' = c \<or> c' = c\<lparr>invisible_epoch := thread\<rparr>"
    using c1 c' by auto
  have m: "map (\<lambda>i. take ?L (filter ?P ((S(k := without_first ?L ?P (S k))) i))) [Suc k..<n]
      = map (\<lambda>i. take ?L (filter ?P (S i))) [Suc k..<n]"
    by (rule map_cong) simp_all
  have up: "[k..<n] = k # [Suc k..<n]" using kn by (rule upt_conv_Cons)
  have ev: "destroyed (events w')
         = destroyed (events w) @ concat (map (\<lambda>i. take ?L (filter ?P (S i))) [k..<n])"
    unfolding ev' ev1 m up by simp
  from run inv cc ev show ?case by blast
qed

lemma bulk_inv_log_event [simp]:
  "bulk_inv w0 (log_event e w) t n S = bulk_inv w0 w t n S"
  by (simp add: bulk_inv_def)

lemma try_bulk_delete_result:
  assumes "bulk_inv w w (table c) n S" and "0 < n"
    and "\<not> resize_lock c" and "resize_lock_owner c = NULL" and "thread \<noteq> NULL"
  shows "\<exists>c' w'. try_bulk_delete thread eval_f c w = Some (Inr (True, c', w'))
     \<and> table c' = table c
     \<and> bulk_inv w w' (table c) n
          (\<lambda>i. without_first BULK_DELETE_LIMIT (\<lambda>x. eval_f (node_value w x)) (S i))
     \<and> destroyed (events w')
         = destroyed (events w) @
           concat (map (\<lambda>i. take BULK_DELETE_LIMIT (filter (\<lambda>x. eval_f (node_value w x)) (S i)))
                     [0..<n])"
proof -
  let ?c1 = "c\<lparr>resize_lock := True, invisible_epoch := 0, resize_lock_owner := thread\<rparr>"
  let ?w1 = "log_event (Critical_section_begin thread) w"
  let ?P = "\<lambda>x. eval_f (node_value w x)"
  let ?L = "BULK_DELETE_LIMIT"
  have tl: "try_resize_lock (ASSERT w) thread c = Inr (True, ?c1)"
    using assms(3,4) by (simp add: try_resize_lock_def Let_def)
  from assms(1) have sz: "tsize (tables w (table c)) = n" by (simp add: bulk_inv_def)
  have inv1: "bulk_inv w ?w1 (table c) n S" using assms(1) by simp
  have own: "resize_lock_owner ?c1 = thread" by simp
  have ep: "invisible_epoch ?c1 = NULL \<or> invisible_epoch ?c1 = thread" by simp
  from do_bulk_delete_loop_result [OF inv1 _ own ep, of 0 eval_f] obtain c2 w2 where
    lp: "do_bulk_delete_loop thread (table c) 0 n eval_f False ?c1 ?w1 = Some (Inr (c2, w2))"
    and inv2: "bulk_inv w w2 (table c) n (\<lambda>i. if 0 \<le> i then without_first ?L ?P (S i) else S i)"
    and c2: "c2 = ?c1 \<or> c2 = ?c1\<lparr>invisible_epoch := thread\<rparr>"
    and ev2: "destroyed (events w2)
         = destroyed (events ?w1) @ concat (map (\<lambda>i. take ?L (filter ?P (S i))) [0..<n])"
    by blast
  let ?w3 = "log_event (Critical_section_end thread) w2"
  have dl: "do_bulk_delete_locked thread eval_f ?c1 w = Some (Inr (c2, ?w3))"
    using assms(2) by (simp add: do_bulk_delete_locked_def do_bulk_delete_locked_for_def sz lp)
  from c2 have own2: "resize_lock_owner c2 = thread" and t2: "table c2 = table c" by auto
  let ?c3 = "c2\<lparr>invisible_epoch := 0, resize_lock_owner := NULL, resize_lock := False\<rparr>"
  have ul: "unlock_resize_lock (ASSERT ?w3) thread c2 = Inr ?c3"
    using own2 by (simp add: unlock_resize_lock_def Let_def)
  have run: "try_bulk_delete thread eval_f c w = Some (Inr (True, ?c3, ?w3))"
    unfolding try_bulk_delete_def using assms(5)
    by (simp add: tl dl ul del: ASSERT_log_event)
  from inv2 have inv3: "bulk_inv w ?w3 (table c) n (\<lambda>i. without_first ?L ?P (S i))" by simp
  have ev3: "destroyed (events ?w3)
         = destroyed (events w) @ concat (map (\<lambda>i. take ?L (filter ?P (S i))) [0..<n])"
    using ev2 by simp
  from run t2 inv3 ev3 show ?thesis by auto
qed

text \<open>
  C2. Let the table hold the chains \<open>S i\<close>, with all buckets unlocked and not redirected, and
  let the resize lock be free. Then \<^verbatim>\<open>try_bulk_delete\<close> returns true and takes out of each
  bucket the first \<^verbatim>\<open>BULK_DELETE_LIMIT\<close> nodes of its chain whose values the evaluator
  selects, and no other node; these are the nodes handed to \<^verbatim>\<open>Node::destroy_node\<close>, bucket
  after bucket. So in a bucket whose chain has at most \<^verbatim>\<open>BULK_DELETE_LIMIT\<close> selected nodes
  exactly the nodes not selected remain.
\<close>

theorem try_bulk_delete_up_to_limit:
  assumes "bulk_inv w w (table c) n S" and "0 < n"
    and "\<not> resize_lock c" and "resize_lock_owner c = NULL" and "thread \<noteq> NULL"
  shows "\<exists>c' w'. try_bulk_delete thread eval_f c w = Some (Inr (True, c', w'))
     \<and> table c' = table c \<and> node_value w' = node_value w
     \<and> list_all (\<lambda>i. bucket_chain w' (table c, i)
          (filter (\<lambda>x. x \<notin> set (take BULK_DELETE_LIMIT
                                      (filter (\<lambda>x. eval_f (node_value w x)) (S i)))) (S i)))
         [0..<n]
     \<and> list_all (\<lambda>i. length (filter (\<lambda>x. eval_f (node_value w x)) (S i)) \<le> BULK_DELETE_LIMIT
            \<longrightarrow> bucket_chain w' (table c, i) (filter (\<lambda>x. \<not> eval_f (node_value w x)) (S i)))
         [0..<n]
     \<and> destroyed (events w')
         = destroyed (events w) @
           concat (map (\<lambda>i. take BULK_DELETE_LIMIT (filter (\<lambda>x. eval_f (node_value w x)) (S i)))
                     [0..<n])"
proof -
  let ?P = "\<lambda>x. eval_f (node_value w x)"
  let ?L = "BULK_DELETE_LIMIT"
  from try_bulk_delete_result [OF assms, of eval_f] obtain c' w' where
    run: "try_bulk_delete thread eval_f c w = Some (Inr (True, c', w'))"
    and t: "table c' = table c"
    and inv: "bulk_inv w w' (table c) n (\<lambda>i. without_first ?L ?P (S i))"
    and ev: "destroyed (events w')
         = destroyed (events w) @ concat (map (\<lambda>i. take ?L (filter ?P (S i))) [0..<n])"
    by blast
  from inv have nv: "node_value w' = node_value w"
    and bc: "\<And>i. i < n \<Longrightarrow> bucket_chain w' (table c, i) (without_first ?L ?P (S i))"
    by (simp_all add: bulk_inv_def)
  from assms(1) have d: "distinct (S i)" if "i < n" for i
    using that by (auto simp: bulk_inv_def bucket_chain_def dest: chain_distinct)
  have one: "list_all (\<lambda>i. bucket_chain w' (table c, i)
          (filter (\<lambda>x. x \<notin> set (take ?L (filter ?P (S i)))) (S i))) [0..<n]"
    using bc without_first_take [OF d, of _ ?L ?P] by (simp add: list_all_iff)
  have two: "list_all (\<lambda>i. length (filter ?P (S i)) \<le> ?L
            \<longrightarrow> bucket_chain w' (table c, i) (filter (\<lambda>x. \<not> ?P x) (S i))) [0..<n]"
  proof -
    have "bucket_chain w' (table c, i) (filter (\<lambda>x. \<not> ?P x) (S i))"
      if "i < n" "length (filter ?P (S i)) \<le> ?L" for i
      using bc [OF that(1)] without_first_all [OF that(2)] by simp
    then show ?thesis by (simp add: list_all_iff)
  qed
  from run t nv one two ev show ?thesis by blast
qed

text \<open>
  Scenario S5. The values 0 to 9999 were inserted, in this order, under the hash that is the
  value itself, into a table of \<open>2^l\<close> buckets that was not grown: \<^verbatim>\<open>internal_insert\<close> links
  a new node in front of the chain of its bucket, so bucket \<open>i\<close> holds the values \<open>i\<close>,
  \<open>i + 2^l\<close>, \<open>i + 2 * 2^l\<close>, ... below 10000, the greatest first. The node of the value \<open>v\<close>
  is at the address \<open>16 * (v + 1)\<close>; the table is at 64.
\<close>

definition node_at :: "nat \<Rightarrow> ptr" where
  "node_at v = of_nat (16 * (v + 1))"

definition value_at :: "ptr \<Rightarrow> nat" where
  "value_at p = unat p div 16 - 1"

definition keys_count :: "nat \<Rightarrow> nat \<Rightarrow> nat" where
  "keys_count l i = (10000 + 2 ^ l - 1 - i) div 2 ^ l"

definition keys_chain :: "nat \<Rightarrow> nat \<Rightarrow> ptr list" where
  "keys_chain l i = map (\<lambda>j. node_at (i + 2 ^ l * j)) (rev [0..<keys_count l i])"

definition keys_head :: "nat \<Rightarrow> nat \<Rightarrow> ptr" where
  "keys_head l i = (case keys_chain l i of [] \<Rightarrow> NULL | x # _ \<Rightarrow> x)"

definition keys_world :: "nat \<Rightarrow> nat world" where
  "keys_world l = \<lparr>ASSERT = True,
     tables = (\<lambda>_. (InternalTable l)\<lparr>buckets := map (keys_head l) [0..<2 ^ l]\<rparr>),
     table_heap = [],
     node_next = (\<lambda>p. if 2 ^ l \<le> value_at p then node_at (value_at p - 2 ^ l) else NULL),
     node_value = value_at,
     events = []\<rparr>"

definition keys_cht :: "nat \<Rightarrow> cht" where
  "keys_cht l = \<lparr>table = 64, new_table = NULL, log2_start_size = l, log2_size_limit = l,
     grow_hint = 4, size_limit_reached = True, resize_lock = False, resize_lock_owner = NULL,
     invisible_epoch = NULL\<rparr>"

lemma unat_node_at:
  assumes "v < 10000"
  shows "unat (node_at v) = 16 * (v + 1)"
proof -
  have "unat (of_nat (16 * (v + 1)) :: ptr) = (16 * (v + 1)) mod 2 ^ LENGTH(64)"
    by (rule unat_of_nat)
  also have "\<dots> = 16 * (v + 1)" using assms by simp
  finally show ?thesis by (simp only: node_at_def)
qed

lemma value_at_node_at [simp]: "v < 10000 \<Longrightarrow> value_at (node_at v) = v"
  by (simp add: value_at_def unat_node_at)

lemma node_at_not_NULL [simp]: "v < 10000 \<Longrightarrow> node_at v \<noteq> NULL"
  using unat_node_at [of v] by auto

lemma aligned_node_at [simp]: "aligned (node_at v)"
proof -
  have e: "16 * (v + 1) = 2 * (8 * (v + 1))" by simp
  have d: "(16 * (v + 1)) div 2 = 2 * (4 * (v + 1))" by simp
  have "even (2 * (8 * (v + 1)))" "even (2 * (4 * (v + 1)))" by (rule dvd_triv_left)+
  then have "\<not> bit (16 * (v + 1)) 0" "\<not> bit (16 * (v + 1)) (Suc 0)"
    unfolding bit_Suc d bit_0 e by simp_all
  moreover have "bit (node_at v) n \<longleftrightarrow> n < 64 \<and> bit (16 * (v + 1)) n" for n
    unfolding node_at_def by (simp only: bit_of_nat_iff possible_bit_word) simp
  ultimately show ?thesis
    by (simp add: aligned_def get_state_0_iff)
qed

lemma keys_count_bound:
  assumes "i < 2 ^ l" and "j < keys_count l i"
  shows "i + 2 ^ l * j < 10000"
proof -
  have pos: "0 < (2::nat) ^ l" by simp
  from assms(2) have "Suc j \<le> (10000 + 2 ^ l - 1 - i) div 2 ^ l" by (simp add: keys_count_def)
  then have "Suc j * 2 ^ l \<le> 10000 + 2 ^ l - 1 - i"
    using pos by (simp only: less_eq_div_iff_mult_less_eq)
  then have "2 ^ l * j + 2 ^ l \<le> 10000 + 2 ^ l - 1 - i" by (simp add: mult.commute)
  with assms(1) show ?thesis by simp
qed

lemma keys_chain_elem:
  assumes "i < 2 ^ l" and "x \<in> set (keys_chain l i)"
  shows "\<exists>v. x = node_at v \<and> v < 10000 \<and> v mod 2 ^ l = i"
proof -
  from assms(2) obtain j where j: "j < keys_count l i" and x: "x = node_at (i + 2 ^ l * j)"
    by (auto simp: keys_chain_def)
  from keys_count_bound [OF assms(1) j] assms(1) x show ?thesis
    by (intro exI [of _ "i + 2 ^ l * j"]) simp
qed

lemma keys_chain_chain:
  assumes "i < 2 ^ l" and "c \<le> keys_count l i"
  shows "chain (node_next (keys_world l))
           (case map (\<lambda>j. node_at (i + 2 ^ l * j)) (rev [0..<c]) of [] \<Rightarrow> NULL | x # _ \<Rightarrow> x)
           (map (\<lambda>j. node_at (i + 2 ^ l * j)) (rev [0..<c]))"
  using assms(2)
proof (induction c)
  case 0
  show ?case by simp
next
  case (Suc c)
  then have c: "c < keys_count l i" and le: "c \<le> keys_count l i" by simp_all
  from keys_count_bound [OF assms(1) c] have b: "i + 2 ^ l * c < 10000" .
  have nx: "node_next (keys_world l) (node_at (i + 2 ^ l * c))
      = (case map (\<lambda>j. node_at (i + 2 ^ l * j)) (rev [0..<c]) of [] \<Rightarrow> NULL | x # _ \<Rightarrow> x)"
  proof (cases c)
    case 0
    with assms(1) b show ?thesis by (simp add: keys_world_def)
  next
    case (Suc d)
    then have "i + 2 ^ l * c - 2 ^ l = i + 2 ^ l * d" by simp
    with Suc b show ?thesis by (simp add: keys_world_def)
  qed
  from Suc.IH [OF le] b show ?case by (simp add: nx)
qed

lemma keys_world_inv:
  "bulk_inv (keys_world l) (keys_world l) (table (keys_cht l)) (2 ^ l) (keys_chain l)"
  unfolding bulk_inv_def
proof (intro conjI allI impI)
  show "tsize (tables (keys_world l) (table (keys_cht l))) = 2 ^ l"
    by (simp add: keys_world_def InternalTable_def)
next
  fix i :: nat assume i: "i < 2 ^ l"
  have al: "aligned (keys_head l i)"
    by (cases "keys_count l i") (simp_all add: keys_head_def keys_chain_def)
  have raw: "first_raw (keys_world l) (table (keys_cht l), i) = keys_head l i"
    using i by (simp add: first_raw_def keys_world_def)
  show "get_state (first_raw (keys_world l) (table (keys_cht l), i)) = 0"
    using al by (simp add: raw aligned_def)
  show "in_table (keys_world l) (table (keys_cht l), i)"
    using i by (simp add: in_table_def keys_world_def)
  have f: "first (keys_world l) (table (keys_cht l), i) = keys_head l i"
    using al by (simp add: first_def raw Bucket_first_def aligned_clear_state)
  have "list_all aligned (keys_chain l i)" by (simp add: keys_chain_def list_all_iff)
  with keys_chain_chain [OF i order_refl]
  show "bucket_chain (keys_world l) (table (keys_cht l), i) (keys_chain l i)"
    by (simp add: bucket_chain_def f keys_head_def keys_chain_def)
next
  fix i k :: nat assume ik: "i < 2 ^ l" "k < 2 ^ l" "i \<noteq> k"
  show "set (keys_chain l i) \<inter> set (keys_chain l k) = {}"
  proof (rule ccontr)
    assume "set (keys_chain l i) \<inter> set (keys_chain l k) \<noteq> {}"
    then obtain x where "x \<in> set (keys_chain l i)" "x \<in> set (keys_chain l k)" by auto
    with keys_chain_elem [OF ik(1)] keys_chain_elem [OF ik(2)]
    obtain v v' where "x = node_at v" "v < 10000" "v mod 2 ^ l = i"
      "x = node_at v'" "v' < 10000" "v' mod 2 ^ l = k" by blast
    then have "value_at (node_at v) = value_at (node_at v')" by simp
    with \<open>v < 10000\<close> \<open>v' < 10000\<close> have "v = v'" by simp
    with \<open>v mod 2 ^ l = i\<close> \<open>v' mod 2 ^ l = k\<close> ik(3) show False by simp
  qed
qed simp_all

lemma without_first_all_match:
  "list_all P xs \<Longrightarrow> without_first k P xs = drop k xs"
proof (induction xs arbitrary: k)
  case Nil
  show ?case by simp
next
  case (Cons x xs)
  then show ?case by (cases k) simp_all
qed

lemma keys_chain_parity:
  assumes "0 < l" and "i < 2 ^ l" and "x \<in> set (keys_chain l i)"
  shows "odd (value_at x) = odd i"
proof -
  from keys_chain_elem [OF assms(2,3)] obtain v where
    v: "x = node_at v" "v < 10000" "v mod 2 ^ l = i" by blast
  from assms(1) have "(2::nat) dvd 2 ^ l" by simp
  then have "even (v mod 2 ^ l) = even v" by (rule dvd_mod_iff)
  with v show ?thesis by simp
qed

lemma keys_chain_length [simp]: "length (keys_chain l i) = keys_count l i"
  by (simp add: keys_chain_def)

lemma keys_cht_fields:
  "\<not> resize_lock (keys_cht l)" "resize_lock_owner (keys_cht l) = NULL" "table (keys_cht l) = 64"
  by (simp_all add: keys_cht_def)

text \<open>
  In a table of 32 buckets, bucket 1 holds the 313 values 1, 33, ..., 9985, all odd. The
  bulk delete takes the nodes of the 256 greatest out of the chain; the nodes of the 57
  values 1, 33, ..., 1793 remain.
\<close>

lemma keys_world_leftover:
  "\<exists>c' w'. try_bulk_delete 1000 odd (keys_cht 5) (keys_world 5) = Some (Inr (True, c', w'))
     \<and> table c' = 64 \<and> node_value w' = value_at
     \<and> bucket_chain w' (64, 1) (map (\<lambda>j. node_at (1 + 32 * j)) (rev [0..<57]))"
proof -
  let ?P = "\<lambda>x. odd (node_value (keys_world 5) x)"
  have p: "0 < (2::nat) ^ 5" "(1000 :: thread) \<noteq> NULL" "(1::nat) < 2 ^ 5" by simp_all
  from try_bulk_delete_result [OF keys_world_inv p(1) keys_cht_fields(1,2) p(2), of odd]
  obtain c' w' where
    run: "try_bulk_delete 1000 odd (keys_cht 5) (keys_world 5) = Some (Inr (True, c', w'))"
    and t: "table c' = table (keys_cht 5)"
    and inv: "bulk_inv (keys_world 5) w' (table (keys_cht 5)) (2 ^ 5)
          (\<lambda>i. without_first BULK_DELETE_LIMIT ?P (keys_chain 5 i))"
    by blast
  from inv p(3) have nv: "node_value w' = node_value (keys_world 5)"
    and bc: "bucket_chain w' (table (keys_cht 5), 1) (without_first BULK_DELETE_LIMIT ?P (keys_chain 5 1))"
    by (simp_all add: bulk_inv_def)
  have v: "node_value (keys_world 5) = value_at" by (simp add: keys_world_def)
  have "list_all ?P (keys_chain 5 1)"
    using keys_chain_parity [of 5 1] by (simp add: list_all_iff v)
  then have "without_first BULK_DELETE_LIMIT ?P (keys_chain 5 1) = drop 256 (keys_chain 5 1)"
    unfolding BULK_DELETE_LIMIT_def by (rule without_first_all_match)
  also have "\<dots> = map (\<lambda>j. node_at (1 + 32 * j)) (rev [0..<57])"
  proof -
    have c: "keys_count 5 1 = 313" by (simp add: keys_count_def)
    have "drop 256 (rev [0..<313]) = rev (take (313 - 256) [0..<313])"
      by (simp only: drop_rev length_upt diff_zero)
    also have "\<dots> = rev [0..<57]" by (simp only: take_upt) simp
    finally show ?thesis by (simp only: keys_chain_def c drop_map) simp
  qed
  finally have "bucket_chain w' (64, 1) (map (\<lambda>j. node_at (1 + 32 * j)) (rev [0..<57]))"
    using bc by (simp add: keys_cht_fields)
  with run t nv v show ?thesis by (simp add: keys_cht_fields)
qed

text \<open>
  The claim as stated fails: after \<^verbatim>\<open>try_bulk_delete\<close> on that table with the evaluator that
  selects the odd values, not every bucket is without a selected node.
\<close>

theorem bulk_delete_leaves_odd_values:
  "\<not> (case try_bulk_delete 1000 odd (keys_cht 5) (keys_world 5) of
        Some (Inr (ok, c', w')) \<Rightarrow>
          \<not> ok \<or> list_all (\<lambda>i. have_deletable w' (table c', i) odd = Some False) [0..<32]
      | _ \<Rightarrow> True)"
proof -
  from keys_world_leftover obtain c' w' where
    run: "try_bulk_delete 1000 odd (keys_cht 5) (keys_world 5) = Some (Inr (True, c', w'))"
    and t: "table c' = 64" and nv: "node_value w' = value_at"
    and bc: "bucket_chain w' (64, 1) (map (\<lambda>j. node_at (1 + 32 * j)) (rev [0..<57]))"
    by blast
  have "node_at 1 \<in> set (map (\<lambda>j. node_at (1 + 32 * j)) (rev [0..<57]))"
    by (simp only: set_map set_rev set_upt) (rule image_eqI [of _ _ 0], simp_all)
  moreover have "odd (value_at (node_at 1))" by simp
  ultimately have "list_ex (\<lambda>n. odd (node_value w' n)) (map (\<lambda>j. node_at (1 + 32 * j)) (rev [0..<57]))"
    unfolding list_ex_iff nv by (rule bexI [rotated])
  with have_deletable_chain [OF bc, of odd]
  have "have_deletable w' (table c', 1) odd = Some True" by (simp only: t)
  moreover have "(1::nat) \<in> set [0..<32]" by simp
  ultimately have "\<not> list_all (\<lambda>i. have_deletable w' (table c', i) odd = Some False) [0..<32]"
    unfolding list_all_iff by (intro notI) (drule (1) bspec, simp)
  with run show ?thesis by simp
qed

text \<open>
  In a table of 64 buckets no bucket holds more than 157 of the values: the bulk delete
  empties the buckets of odd index and leaves the others as they are, and destroys the nodes
  of the odd values.
\<close>

theorem try_bulk_delete_up_to_limit_witness:
  "bulk_inv (keys_world 6) (keys_world 6) (table (keys_cht 6)) (2 ^ 6) (keys_chain 6)
   \<and> \<not> resize_lock (keys_cht 6) \<and> resize_lock_owner (keys_cht 6) = NULL
   \<and> (1000 :: thread) \<noteq> NULL
   \<and> (\<exists>c' w'. try_bulk_delete 1000 odd (keys_cht 6) (keys_world 6) = Some (Inr (True, c', w'))
          \<and> list_all (\<lambda>i. bucket_chain w' (64, i) (if odd i then [] else keys_chain 6 i)) [0..<64]
          \<and> destroyed (events w')
              = concat (map (\<lambda>i. if odd i then keys_chain 6 i else []) [0..<64]))"
proof -
  let ?P = "\<lambda>x. odd (node_value (keys_world 6) x)"
  have p: "0 < (2::nat) ^ 6" "(1000 :: thread) \<noteq> NULL" by simp_all
  have v: "node_value (keys_world 6) = value_at" by (simp add: keys_world_def)
  have ev0: "events (keys_world 6) = []" by (simp add: keys_world_def)
  have n: "(2::nat) ^ 6 = 64" by simp
  have par: "filter ?P (keys_chain 6 i) = (if odd i then keys_chain 6 i else [])"
    "filter (\<lambda>x. \<not> ?P x) (keys_chain 6 i) = (if odd i then [] else keys_chain 6 i)"
    if "i < 64" for i
    using that keys_chain_parity [of 6 i] by (auto simp: v filter_id_conv filter_empty_conv)
  have len: "length (filter ?P (keys_chain 6 i)) \<le> BULK_DELETE_LIMIT" if "i < 64" for i
  proof -
    have "length (filter ?P (keys_chain 6 i)) \<le> keys_count 6 i"
      using length_filter_le [of ?P "keys_chain 6 i"] by simp
    also have "\<dots> \<le> 256" by (simp add: keys_count_def)
    finally show ?thesis by (simp add: BULK_DELETE_LIMIT_def)
  qed
  from try_bulk_delete_up_to_limit [OF keys_world_inv p(1) keys_cht_fields(1,2) p(2), of odd]
  obtain c' w' where
    run: "try_bulk_delete 1000 odd (keys_cht 6) (keys_world 6) = Some (Inr (True, c', w'))"
    and two: "list_all (\<lambda>i. length (filter ?P (keys_chain 6 i)) \<le> BULK_DELETE_LIMIT
            \<longrightarrow> bucket_chain w' (table (keys_cht 6), i) (filter (\<lambda>x. \<not> ?P x) (keys_chain 6 i)))
         [0..<2 ^ 6]"
    and ev: "destroyed (events w')
         = destroyed (events (keys_world 6)) @
           concat (map (\<lambda>i. take BULK_DELETE_LIMIT (filter ?P (keys_chain 6 i))) [0..<2 ^ 6])"
    by blast
  from two have a: "list_all (\<lambda>i. bucket_chain w' (64, i) (if odd i then [] else keys_chain 6 i)) [0..<64]"
    unfolding n list_all_iff using len par(2) by (simp add: keys_cht_fields)
  have "map (\<lambda>i. take BULK_DELETE_LIMIT (filter ?P (keys_chain 6 i))) [0..<64]
      = map (\<lambda>i. if odd i then keys_chain 6 i else []) [0..<64]"
    by (rule map_cong) (use len par(1) in auto)
  with ev have b: "destroyed (events w') = concat (map (\<lambda>i. if odd i then keys_chain 6 i else []) [0..<64])"
    unfolding n ev0 by simp
  from run a b have "\<exists>c' w'. try_bulk_delete 1000 odd (keys_cht 6) (keys_world 6) = Some (Inr (True, c', w'))
          \<and> list_all (\<lambda>i. bucket_chain w' (64, i) (if odd i then [] else keys_chain 6 i)) [0..<64]
          \<and> destroyed (events w')
              = concat (map (\<lambda>i. if odd i then keys_chain 6 i else []) [0..<64])"
    by blast
  with keys_world_inv [of 6] keys_cht_fields(1,2) [of 6] p(2) show ?thesis by (intro conjI)
qed

end
